theory Spec2Isabelle
  imports Main
begin

section \<open>The dispatch engine of the helper (src/helper/engine.cpp)\<close>

subsection \<open>Data model\<close>

text \<open>
  Modelled from the spec: the parameter tree (parameter.hpp is not among the sources).
  A recursive tagged value: a map node with its keyed children in order, an array, or
  a scalar; \<open>p_invalid\<close> is the default-constructed object the tests pass as a
  parameter that is not usable. The engine only asks a parameter whether it is a map,
  for its size and for the key of its i-th entry.
\<close>

datatype parameter =
    p_invalid
  | p_string string
  | p_array "parameter list"
  | p_map "(string \<times> parameter) list"

fun is_map :: "parameter \<Rightarrow> bool" where
  "is_map (p_map es) = True"
| "is_map p = False"

fun entries :: "parameter \<Rightarrow> (string \<times> parameter) list" where
  "entries (p_map es) = es"
| "entries p = []"

definition keys :: "parameter \<Rightarrow> string list" where
  "keys data = map fst (entries data)"

text \<open>
  Modelled from the spec: what a function of the program can throw (exception.hpp is
  not among the sources). The exception classes of the program are
  \<open>std::exception\<close>s: \<open>invalid_object\<close> with its key and its message (the spec's
  InvalidInputError), \<open>timeout_error\<close> (TimeoutError), and any other
  \<open>std::exception\<close> with its \<open>what()\<close> text (SubscriberFailure). A listener is
  reached through a virtual call and may also throw an object of a type that does not
  derive from \<open>std::exception\<close>: \<open>thrown_object\<close>, with a description of it. The
  handler in publish is \<open>catch (std::exception &e)\<close>: it catches the former and not
  the latter.
\<close>

datatype exn =
    invalid_object string string
  | timeout_error
  | std_exception string
  | thrown_object string

fun is_std_exception :: "exn \<Rightarrow> bool" where
  "is_std_exception (thrown_object d) = False"
| "is_std_exception e = True"

text \<open>
  Modelled from the spec: the result type (result.hpp is not among the sources): a
  numeric severity, compared by its greater-than in publish, plus opaque serialized match data.
  The default-constructed result has the lowest severity and no data.
\<close>

record result =
  res_value :: nat
  res_data :: "string list"

definition default_result :: result where
  "default_result = \<lparr>res_value = 0, res_data = []\<rparr>"

text \<open>
  A \<open>subscriber::ptr\<close> is a shared pointer; a \<open>std::set\<close> of them orders and
  identifies its elements by the address held, so a pointer is modelled by that address
  and the objects live in a heap. A subscriber object gives its addresses, makes a
  fresh listener, and its listeners answer \<open>call\<close>: an exception or a result, together
  with the listener's new state.
\<close>

type_synonym address = string
type_synonym sub_ptr = nat

record 'l subscriber =
  get_subscriptions :: "address list"
  get_listener :: "'l"
  call :: "'l \<Rightarrow> parameter \<Rightarrow> nat \<Rightarrow> (exn + result) \<times> 'l"

type_synonym 'l heap = "sub_ptr \<Rightarrow> 'l subscriber"

type_synonym subscription_map = "address \<rightharpoonup> sub_ptr list"

record 'l engine_context =
  listeners :: "sub_ptr \<rightharpoonup> 'l"
  prev_published_params :: "parameter list"

text \<open>What the two logging statements of publish write.\<close>

datatype log_entry =
    data_pushed string
  | subscriber_failed exn

subsection \<open>engine::subscribe\<close>

definition subscribe_addr :: "sub_ptr \<Rightarrow> address \<Rightarrow> subscription_map \<Rightarrow> subscription_map" where
  "subscribe_addr sub addr subs =
     (case subs addr of
        None \<Rightarrow> subs(addr \<mapsto> [sub])
      | Some v \<Rightarrow> subs(addr \<mapsto> v @ [sub]))"

definition subscribe :: "'l heap \<Rightarrow> sub_ptr \<Rightarrow> subscription_map \<Rightarrow> subscription_map" where
  "subscribe H sub subs = fold (subscribe_addr sub) (get_subscriptions (H sub)) subs"

subsection \<open>engine::context::publish\<close>

text \<open>
  The first loop: for every key of the data, in order, the subscribers found under it
  are inserted into \<open>sub_set\<close>, a \<open>std::set\<close>: here the strictly ascending list of
  its elements, which is the order the second loop iterates in.
\<close>

fun collect_subs :: "subscription_map \<Rightarrow> string list \<Rightarrow> sub_ptr list \<Rightarrow> sub_ptr list" where
  "collect_subs subs [] sub_set = sub_set"
| "collect_subs subs (key # ks) sub_set =
     (case subs key of
        None \<Rightarrow> collect_subs subs ks sub_set
      | Some v \<Rightarrow> collect_subs subs ks (fold insort_insert v sub_set))"

text \<open>
  \<open>listeners_.find(sub)\<close>, and \<open>emplace(sub, sub->get_listener())\<close> when there is none.
\<close>

definition find_listener :: "'l heap \<Rightarrow> (sub_ptr \<rightharpoonup> 'l) \<Rightarrow> sub_ptr \<Rightarrow> 'l" where
  "find_listener H ls sub =
     (case ls sub of None \<Rightarrow> get_listener (H sub) | Some l \<Rightarrow> l)"

text \<open>
  The second loop, followed by \<open>return res\<close>. Its state is the listener cache, the
  running result \<open>res\<close> and the log. A result of \<open>call\<close> replaces \<open>res\<close> when its
  value is strictly greater. A \<open>std::exception\<close> thrown by \<open>call\<close> is caught and
  logged, and the loop goes on; any other thrown object is not caught: it leaves the
  loop and publish at once, with the cache and the log as they are at that point.
\<close>

fun dispatch ::
  "'l heap \<Rightarrow> parameter \<Rightarrow> nat \<Rightarrow> sub_ptr list \<Rightarrow>
   (sub_ptr \<rightharpoonup> 'l) \<times> result \<times> log_entry list \<Rightarrow>
   (sub_ptr \<rightharpoonup> 'l) \<times> (exn + result) \<times> log_entry list" where
  "dispatch H data timeout [] (ls, res, lg) = (ls, Inr res, lg)"
| "dispatch H data timeout (sub # rest) (ls, res, lg) =
     (case call (H sub) (find_listener H ls sub) data timeout of
        (Inr call_res, l') \<Rightarrow>
          dispatch H data timeout rest
            (ls(sub \<mapsto> l'),
             if res_value call_res > res_value res then call_res else res,
             lg)
      | (Inl e, l') \<Rightarrow>
          if is_std_exception e
          then dispatch H data timeout rest
                 (ls(sub \<mapsto> l'), res, lg @ [subscriber_failed e])
          else (ls(sub \<mapsto> l'), Inl e, lg))"

text \<open>
  publish returns the exception thrown or the result, the context as the call leaves
  it, and what was logged. The parameter is pushed onto \<open>prev_published_params_\<close>
  first; \<open>data\<close> is the element just pushed. The first loop logs every key it
  visits, found in the table or not, before the second loop logs anything: these
  entries are the log the second loop starts from.
\<close>

definition publish ::
  "'l heap \<Rightarrow> subscription_map \<Rightarrow> 'l engine_context \<Rightarrow> parameter \<Rightarrow> nat \<Rightarrow>
   (exn + result) \<times> 'l engine_context \<times> log_entry list" where
  "publish H subs ctx param timeout =
     (let ctx1 = ctx\<lparr>prev_published_params := prev_published_params ctx @ [param]\<rparr>;
          data = last (prev_published_params ctx1)
      in if \<not> is_map data then (Inl (invalid_object ''.'' ''not a map''), ctx1, [])
         else
           let sub_set = collect_subs subs (keys data) [];
               (ls, out, lg) =
                 dispatch H data timeout sub_set
                   (listeners ctx1, default_result, map data_pushed (keys data))
           in (out, ctx1\<lparr>listeners := ls\<rparr>, lg))"

subsection \<open>What one publish call does, subscriber by subscriber\<close>

text \<open>
  The contents of \<open>sub_set\<close> after the first loop of publish, in iteration order.
\<close>

definition sub_set_of :: "subscription_map \<Rightarrow> parameter \<Rightarrow> sub_ptr list" where
  "sub_set_of subs data = collect_subs subs (keys data) []"

text \<open>
  What the call of one subscriber's listener returns inside the second loop: the
  listener found or created for it, called with the data and the timeout.
\<close>

definition call_outcome :: "'l heap \<Rightarrow> (sub_ptr \<rightharpoonup> 'l) \<Rightarrow> parameter \<Rightarrow> nat \<Rightarrow> sub_ptr \<Rightarrow> (exn + result) \<times> 'l" where
  "call_outcome H ls data timeout sub = call (H sub) (find_listener H ls sub) data timeout"

definition call_outcomes ::
  "'l heap \<Rightarrow> subscription_map \<Rightarrow> 'l engine_context \<Rightarrow> parameter \<Rightarrow> nat \<Rightarrow> (exn + result) list" where
  "call_outcomes H subs ctx data timeout =
     map (\<lambda>sub. fst (call_outcome H (listeners ctx) data timeout sub)) (sub_set_of subs data)"

text \<open>
  The results of the calls that returned, and the exceptions of those that threw.
\<close>

fun successes :: "(exn + result) list \<Rightarrow> result list" where
  "successes [] = []"
| "successes (Inr r # outs) = r # successes outs"
| "successes (Inl e # outs) = successes outs"

fun failures :: "(exn + result) list \<Rightarrow> exn list" where
  "failures [] = []"
| "failures (Inr r # outs) = failures outs"
| "failures (Inl e # outs) = e # failures outs"

text \<open>
  Every exception among the outcomes is one the handler of publish catches.
\<close>

definition only_std_exceptions :: "(exn + result) list \<Rightarrow> bool" where
  "only_std_exceptions outs = list_all is_std_exception (failures outs)"

text \<open>
  The running result of the second loop over the results of the calls that returned.
\<close>

fun aggregate :: "result \<Rightarrow> result list \<Rightarrow> result" where
  "aggregate res [] = res"
| "aggregate res (call_res # rs) =
     aggregate (if res_value call_res > res_value res then call_res else res) rs"

subsection \<open>A small engine to run the definitions on\<close>

text \<open>
  Subscribers whose listener state counts the calls made to it, and whose \<open>call\<close>
  gives a fixed outcome: subscriber 1 records, 2 throws a \<open>std::exception\<close>, 3 and 5
  block, 4 times out, 6 throws an object that is no \<open>std::exception\<close>, 7 records.
\<close>

definition demo_subscriber :: "address list \<Rightarrow> exn + result \<Rightarrow> nat subscriber" where
  "demo_subscriber addrs out =
     \<lparr>get_subscriptions = addrs, get_listener = 0, call = (\<lambda>l data timeout. (out, Suc l))\<rparr>"

definition demo_heap :: "nat heap" where
  "demo_heap p =
     (if p = 1 then demo_subscriber [''arg1''] (Inr \<lparr>res_value = 1, res_data = [''m1'']\<rparr>)
      else if p = 2 then demo_subscriber [''arg1'', ''arg2''] (Inl (std_exception ''boom''))
      else if p = 3 then demo_subscriber [''arg2''] (Inr \<lparr>res_value = 2, res_data = [''m3'']\<rparr>)
      else if p = 4 then demo_subscriber [''arg1''] (Inl timeout_error)
      else if p = 5 then demo_subscriber [''arg2''] (Inr \<lparr>res_value = 2, res_data = [''m5'']\<rparr>)
      else if p = 6 then demo_subscriber [''arg1''] (Inl (thrown_object ''int 42''))
      else if p = 7 then demo_subscriber [''arg1''] (Inr \<lparr>res_value = 1, res_data = [''m7'']\<rparr>)
      else demo_subscriber [] (Inr default_result))"

definition demo_ctx :: "nat engine_context" where
  "demo_ctx = \<lparr>listeners = Map.empty, prev_published_params = []\<rparr>"

definition demo_data :: parameter where
  "demo_data = p_map [(''arg1'', p_string ''string 1''), (''arg2'', p_string ''string 3'')]"

definition demo_subs_escape :: subscription_map where
  "demo_subs_escape =
     subscribe demo_heap 7 (subscribe demo_heap 6 (subscribe demo_heap 1 Map.empty))"

definition demo_subs :: subscription_map where
  "demo_subs =
     subscribe demo_heap 5 (subscribe demo_heap 3 (subscribe demo_heap 2
       (subscribe demo_heap 1 Map.empty)))"

section \<open>The WAF subscriber and its rule-data update\<close>

text \<open>
  Modelled from the spec: the WAF subscriber (subscriber/waf.cpp, its listener and the
  event and action types are not among the sources; only its tests are, at the end of
  engine.cpp). The matching library is external: a regular expression is represented
  by the predicate of the strings it accepts, and the clock by the time \<open>now\<close> given
  to a call.
\<close>

subsection \<open>Events and actions\<close>

text \<open>
  Modelled from the spec: an Event is a list of rule-match fragments, self-describing
  structured records (the tests read \<open>rule_matches[i].parameters[j].value\<close> in them),
  plus a list of Actions; an Action is a type and a mapping from strings to strings.
\<close>

record match_param =
  mp_address :: address
  mp_key_path :: "string list"
  mp_value :: string

record rule_match =
  rm_operator :: string
  rm_parameters :: "match_param list"

record match_fragment =
  frag_rule_id :: string
  frag_rule_matches :: "rule_match list"

datatype action_type = block | redirect | custom_id | invalid

record action =
  act_type :: action_type
  act_parameters :: "string \<rightharpoonup> string"

record event =
  ev_data :: "match_fragment list"
  ev_actions :: "action list"

definition empty_event :: event where
  "empty_event = \<lparr>ev_data = [], ev_actions = []\<rparr>"

subsection \<open>The ruleset snapshot\<close>

text \<open>
  Modelled from the spec: rules (conditions over addresses, \<open>on_match\<close> identifiers),
  rule data by id, the action table, the obfuscation policy (an optional regex on keys
  and an optional one on values) and the timeout given at construction. The two
  operators are those of the rulesets in the tests.
\<close>

datatype operator = match_regex "string \<Rightarrow> bool" | ip_match string

record condition =
  cond_address :: address
  cond_operator :: operator

record rule =
  rule_id :: string
  rule_conditions :: "condition list"
  rule_on_match :: "string list"

record action_entry =
  entry_type :: string
  entry_parameters :: "(string \<times> string) list"

record obfuscation =
  obf_key_regex :: "(string \<Rightarrow> bool) option"
  obf_value_regex :: "(string \<Rightarrow> bool) option"

record waf_instance =
  waf_rules :: "rule list"
  waf_rules_data :: "(string \<times> parameter list) list"
  waf_actions :: "(string \<times> action_entry) list"
  waf_obfuscation :: obfuscation
  waf_timeout :: nat

definition waf_get_subscriptions :: "waf_instance \<Rightarrow> address list" where
  "waf_get_subscriptions inst =
     remdups (concat (map (\<lambda>r. map cond_address (rule_conditions r)) (waf_rules inst)))"

subsection \<open>Rule matching\<close>

text \<open>
  Modelled from the spec: the scalar values below an address, each with the path of
  map keys that leads to it (its originating keys).
\<close>

fun leaves :: "string list \<Rightarrow> parameter \<Rightarrow> (string list \<times> string) list"
  and leaves_list :: "string list \<Rightarrow> parameter list \<Rightarrow> (string list \<times> string) list"
  and leaves_entries :: "string list \<Rightarrow> (string \<times> parameter) list \<Rightarrow> (string list \<times> string) list"
where
  "leaves path p_invalid = []"
| "leaves path (p_string s) = [(path, s)]"
| "leaves path (p_array ps) = leaves_list path ps"
| "leaves path (p_map es) = leaves_entries path es"
| "leaves_list path [] = []"
| "leaves_list path (p # ps) = leaves path p @ leaves_list path ps"
| "leaves_entries path [] = []"
| "leaves_entries path ((k, p) # es) = leaves (path @ [k]) p @ leaves_entries path es"

text \<open>
  Modelled from the spec: a rule-data entry \<open>{"value": v, "expiration": e}\<close> with
  \<open>e\<close> in the future matches the value \<open>v\<close>; the tests write the expiration as a
  string of decimal digits. The spec speaks of no other entry, and none other matches.
\<close>

definition digit_of :: "char \<Rightarrow> nat option" where
  "digit_of =
     map_of [(CHR ''0'', 0), (CHR ''1'', 1), (CHR ''2'', 2), (CHR ''3'', 3), (CHR ''4'', 4),
             (CHR ''5'', 5), (CHR ''6'', 6), (CHR ''7'', 7), (CHR ''8'', 8), (CHR ''9'', 9)]"

fun decimal :: "nat \<Rightarrow> string \<Rightarrow> nat option" where
  "decimal acc [] = Some acc"
| "decimal acc (c # cs) =
     (case digit_of c of None \<Rightarrow> None | Some d \<Rightarrow> decimal (10 * acc + d) cs)"

fun expiration_of :: "parameter \<Rightarrow> nat option" where
  "expiration_of (p_string s) = (if s = [] then None else decimal 0 s)"
| "expiration_of p = None"

fun entry_matches :: "nat \<Rightarrow> string \<Rightarrow> parameter \<Rightarrow> bool" where
  "entry_matches now v (p_map es) =
     (map_of es ''value'' = Some (p_string v) \<and>
      (case map_of es ''expiration'' of
         None \<Rightarrow> False
       | Some x \<Rightarrow> (case expiration_of x of None \<Rightarrow> False | Some e \<Rightarrow> now < e)))"
| "entry_matches now v p = False"

fun matching_leaf :: "waf_instance \<Rightarrow> nat \<Rightarrow> operator \<Rightarrow> string list \<times> string \<Rightarrow> bool" where
  "matching_leaf inst now (match_regex accepts) (path, v) = accepts v"
| "matching_leaf inst now (ip_match data_id) (path, v) =
     (case map_of (waf_rules_data inst) data_id of
        None \<Rightarrow> False
      | Some ds \<Rightarrow> list_ex (entry_matches now v) ds)"

fun operator_name :: "operator \<Rightarrow> string" where
  "operator_name (match_regex accepts) = ''match_regex''"
| "operator_name (ip_match data_id) = ''ip_match''"

text \<open>
  Modelled from the spec: a condition matches when a value below its address does, and
  reports the first such value; a rule fires when all its conditions match the current
  batch, and then contributes one fragment.
\<close>

definition eval_condition ::
  "waf_instance \<Rightarrow> nat \<Rightarrow> parameter \<Rightarrow> condition \<Rightarrow> rule_match option" where
  "eval_condition inst now data c =
     (case map_of (entries data) (cond_address c) of
        None \<Rightarrow> None
      | Some p \<Rightarrow>
          (case filter (matching_leaf inst now (cond_operator c)) (leaves [] p) of
             [] \<Rightarrow> None
           | (path, v) # others \<Rightarrow>
               Some \<lparr>rm_operator = operator_name (cond_operator c),
                     rm_parameters =
                       [\<lparr>mp_address = cond_address c, mp_key_path = path, mp_value = v\<rparr>]\<rparr>))"

fun eval_conditions ::
  "waf_instance \<Rightarrow> nat \<Rightarrow> parameter \<Rightarrow> condition list \<Rightarrow> rule_match list option" where
  "eval_conditions inst now data [] = Some []"
| "eval_conditions inst now data (c # cs) =
     (case eval_condition inst now data c of
        None \<Rightarrow> None
      | Some m \<Rightarrow>
          (case eval_conditions inst now data cs of
             None \<Rightarrow> None
           | Some ms \<Rightarrow> Some (m # ms)))"

fun run_rules ::
  "waf_instance \<Rightarrow> nat \<Rightarrow> parameter \<Rightarrow> rule list \<Rightarrow> (rule \<times> match_fragment) list" where
  "run_rules inst now data [] = []"
| "run_rules inst now data (r # rs) =
     (case eval_conditions inst now data (rule_conditions r) of
        None \<Rightarrow> run_rules inst now data rs
      | Some ms \<Rightarrow>
          (r, \<lparr>frag_rule_id = rule_id r, frag_rule_matches = ms\<rparr>) # run_rules inst now data rs)"

definition matched_fragments :: "waf_instance \<Rightarrow> nat \<Rightarrow> parameter \<Rightarrow> match_fragment list" where
  "matched_fragments inst now data = map snd (run_rules inst now data (waf_rules inst))"

subsection \<open>Obfuscation\<close>

text \<open>
  Modelled from the spec: before a matched value is serialized into the Event, if an
  originating key or the value itself matches the configured obfuscation regex, the
  value is replaced with the fixed redaction placeholder (\<open><Redacted>\<close> in the tests).
\<close>

definition redaction_placeholder :: string where
  "redaction_placeholder = ''<Redacted>''"

definition is_sensitive :: "obfuscation \<Rightarrow> match_param \<Rightarrow> bool" where
  "is_sensitive obf mp =
     ((case obf_key_regex obf of None \<Rightarrow> False | Some accepts \<Rightarrow> list_ex accepts (mp_key_path mp)) \<or>
      (case obf_value_regex obf of None \<Rightarrow> False | Some accepts \<Rightarrow> accepts (mp_value mp)))"

definition obfuscate_param :: "obfuscation \<Rightarrow> match_param \<Rightarrow> match_param" where
  "obfuscate_param obf mp =
     (if is_sensitive obf mp then mp\<lparr>mp_value := redaction_placeholder\<rparr> else mp)"

definition obfuscate_match :: "obfuscation \<Rightarrow> rule_match \<Rightarrow> rule_match" where
  "obfuscate_match obf m = m\<lparr>rm_parameters := map (obfuscate_param obf) (rm_parameters m)\<rparr>"

definition obfuscate_fragment :: "obfuscation \<Rightarrow> match_fragment \<Rightarrow> match_fragment" where
  "obfuscate_fragment obf f =
     f\<lparr>frag_rule_matches := map (obfuscate_match obf) (frag_rule_matches f)\<rparr>"

definition param_at :: "match_fragment list \<Rightarrow> nat \<Rightarrow> nat \<Rightarrow> nat \<Rightarrow> match_param" where
  "param_at frags i j k = rm_parameters (frag_rule_matches (frags ! i) ! j) ! k"

subsection \<open>Actions\<close>

text \<open>
  Modelled from the spec: an \<open>on_match\<close> identifier is resolved against the action
  table; the blocking type has the default parameters status_code=403,
  grpc_status_code=10, type=auto, which the parameters of the entry override per key;
  an identifier with no entry that is not a built-in one, or an entry of an unknown
  type, gives an \<open>invalid\<close> action with the raw parameters. The spec names no default
  values for the redirect type, which keeps the parameters of its entry. The actions of
  an Event are deduplicated by resolved type.
\<close>

definition block_defaults :: "string \<rightharpoonup> string" where
  "block_defaults =
     [''status_code'' \<mapsto> ''403'', ''grpc_status_code'' \<mapsto> ''10'', ''type'' \<mapsto> ''auto'']"

definition make_action :: "action_entry \<Rightarrow> action" where
  "make_action e =
     (if entry_type e = ''block_request''
      then \<lparr>act_type = block, act_parameters = block_defaults ++ map_of (entry_parameters e)\<rparr>
      else if entry_type e = ''redirect_request''
      then \<lparr>act_type = redirect, act_parameters = map_of (entry_parameters e)\<rparr>
      else \<lparr>act_type = invalid, act_parameters = map_of (entry_parameters e)\<rparr>)"

definition resolve_action :: "(string \<times> action_entry) list \<Rightarrow> string \<Rightarrow> action" where
  "resolve_action table aid =
     (case map_of table aid of
        Some e \<Rightarrow> make_action e
      | None \<Rightarrow>
          if aid = ''block''
          then make_action \<lparr>entry_type = ''block_request'', entry_parameters = []\<rparr>
          else \<lparr>act_type = invalid, act_parameters = Map.empty\<rparr>)"

fun add_actions :: "action_type list \<Rightarrow> action list \<Rightarrow> action list" where
  "add_actions seen [] = []"
| "add_actions seen (a # as) =
     (if act_type a \<in> set seen then add_actions seen as
      else a # add_actions (act_type a # seen) as)"

subsection \<open>Listener call\<close>

text \<open>
  Modelled from the spec: \<open>call\<close> appends to the Event of the listener. It fails with
  InvalidInputError when the data is not a map, and with TimeoutError in the zero-budget
  mode when an address of the subscriber is present; otherwise the fragments of the
  firing rules are serialized, obfuscated, and their actions resolved.
\<close>

definition waf_call :: "waf_instance \<Rightarrow> nat \<Rightarrow> parameter \<Rightarrow> event \<Rightarrow> exn + event" where
  "waf_call inst now data ev =
     (if \<not> is_map data then Inl (invalid_object ''.'' ''not a map'')
      else if waf_timeout inst = 0 \<and> list_ex (\<lambda>k. k \<in> set (waf_get_subscriptions inst)) (keys data)
      then Inl timeout_error
      else
        let fired = run_rules inst now data (waf_rules inst);
            frags = map (obfuscate_fragment (waf_obfuscation inst)) (map snd fired);
            acts = map (resolve_action (waf_actions inst))
                     (concat (map (\<lambda>(r, f). rule_on_match r) fired))
        in Inr \<lparr>ev_data = ev_data ev @ frags,
                ev_actions = ev_actions ev @ add_actions (map act_type (ev_actions ev)) acts\<rparr>)"

subsection \<open>update\<close>

text \<open>
  Modelled from the spec: the rule-data document is a map with the key \<open>rules_data\<close>,
  a sequence of \<open>{id: string, type: string, data: sequence}\<close> entries.
\<close>

fun is_string :: "parameter option \<Rightarrow> bool" where
  "is_string (Some (p_string s)) = True"
| "is_string p = False"

fun is_array :: "parameter option \<Rightarrow> bool" where
  "is_array (Some (p_array ps)) = True"
| "is_array p = False"

fun entry_shape_ok :: "parameter \<Rightarrow> bool" where
  "entry_shape_ok (p_map es) =
     (is_string (map_of es ''id'') \<and> is_string (map_of es ''type'') \<and>
      is_array (map_of es ''data''))"
| "entry_shape_ok p = False"

fun shape_ok :: "parameter \<Rightarrow> bool" where
  "shape_ok (p_map es) =
     (case map_of es ''rules_data'' of
        Some (p_array items) \<Rightarrow> list_all entry_shape_ok items
      | _ \<Rightarrow> False)"
| "shape_ok p = False"

text \<open>
  Modelled from the spec: update validates the document and fails with
  InvalidInputError when its shape is wrong; otherwise it clones the snapshot, replaces
  the named rule-data entries and returns a new instance. Instances live in a store and
  are never changed in place: update allocates the new one at the next free address.
\<close>

fun parse_entry :: "parameter \<Rightarrow> exn + string \<times> parameter list" where
  "parse_entry (p_map es) =
     (case (map_of es ''id'', map_of es ''type'', map_of es ''data'') of
        (Some (p_string i), Some (p_string t), Some (p_array ds)) \<Rightarrow> Inr (i, ds)
      | _ \<Rightarrow> Inl (invalid_object ''rules_data'' ''malformed entry''))"
| "parse_entry p = Inl (invalid_object ''rules_data'' ''entry is not a map'')"

fun parse_entries :: "parameter list \<Rightarrow> exn + (string \<times> parameter list) list" where
  "parse_entries [] = Inr []"
| "parse_entries (p # ps) =
     (case parse_entry p of
        Inl e \<Rightarrow> Inl e
      | Inr x \<Rightarrow> (case parse_entries ps of Inl e \<Rightarrow> Inl e | Inr xs \<Rightarrow> Inr (x # xs)))"

fun parse_rules_data :: "parameter \<Rightarrow> exn + (string \<times> parameter list) list" where
  "parse_rules_data (p_map es) =
     (case map_of es ''rules_data'' of
        Some (p_array items) \<Rightarrow> parse_entries items
      | _ \<Rightarrow> Inl (invalid_object ''rules_data'' ''missing or not a sequence''))"
| "parse_rules_data p = Inl (invalid_object ''.'' ''not a map'')"

fun merge_rules_data ::
  "(string \<times> parameter list) list \<Rightarrow> (string \<times> parameter list) list \<Rightarrow>
   (string \<times> parameter list) list" where
  "merge_rules_data old [] = old"
| "merge_rules_data old ((i, ds) # new) =
     merge_rules_data ((i, ds) # filter (\<lambda>(k, d). k \<noteq> i) old) new"

record waf_store =
  objs :: "nat \<Rightarrow> waf_instance"
  next_free :: nat

definition update :: "waf_store \<Rightarrow> nat \<Rightarrow> parameter \<Rightarrow> (exn + nat) \<times> waf_store" where
  "update st this param =
     (case parse_rules_data param of
        Inl e \<Rightarrow> (Inl e, st)
      | Inr rd \<Rightarrow>
          (Inr (next_free st),
           st\<lparr>objs := (objs st)
                 (next_free st :=
                    (objs st this)\<lparr>waf_rules_data :=
                       merge_rules_data (waf_rules_data (objs st this)) rd\<rparr>),
              next_free := Suc (next_free st)\<rparr>))"

subsection \<open>The rulesets and inputs of the tests\<close>

text \<open>
  A regular expression without operators accepts the strings that contain it; the
  regex \<open>^string.*\<close> accepts those that start with \<open>string\<close>, and \<open>.*\<close> every string.
\<close>

fun contains :: "string \<Rightarrow> string \<Rightarrow> bool" where
  "contains pat [] = (pat = [])"
| "contains pat (c # cs) = (take (length pat) (c # cs) = pat \<or> contains pat cs)"

definition default_waf_timeout_us :: nat where
  "default_waf_timeout_us = 10000"

definition no_obfuscation :: obfuscation where
  "no_obfuscation = \<lparr>obf_key_regex = None, obf_value_regex = None\<rparr>"

definition waf_rule :: "obfuscation \<Rightarrow> nat \<Rightarrow> waf_instance" where
  "waf_rule obf timeout =
     \<lparr>waf_rules =
        [\<lparr>rule_id = ''1'',
          rule_conditions =
            [\<lparr>cond_address = ''arg1'', cond_operator = match_regex (\<lambda>s. take 6 s = ''string'')\<rparr>,
             \<lparr>cond_address = ''arg2'', cond_operator = match_regex (\<lambda>s. True)\<rparr>],
          rule_on_match = []\<rparr>],
      waf_rules_data = [],
      waf_actions = [],
      waf_obfuscation = obf,
      waf_timeout = timeout\<rparr>"

definition ip_block_instance :: "string \<Rightarrow> (string \<times> action_entry) list \<Rightarrow> waf_instance" where
  "ip_block_instance aid table =
     \<lparr>waf_rules =
        [\<lparr>rule_id = ''blk-001-001'',
          rule_conditions =
            [\<lparr>cond_address = ''http.client_ip'', cond_operator = ip_match ''blocked_ips''\<rparr>],
          rule_on_match = [aid]\<rparr>],
      waf_rules_data = [],
      waf_actions = table,
      waf_obfuscation = no_obfuscation,
      waf_timeout = default_waf_timeout_us\<rparr>"

definition waf_rule_with_data :: waf_instance where
  "waf_rule_with_data = ip_block_instance ''block'' []"

definition rules_data_doc :: "string \<Rightarrow> parameter \<Rightarrow> parameter" where
  "rules_data_doc ip expiration =
     p_map [(''rules_data'', p_array
       [p_map [(''id'', p_string ''blocked_ips''),
               (''type'', p_string ''data_with_expiration''),
               (''data'', p_array
                  [p_map [(''value'', p_string ip), (''expiration'', expiration)]])]])]"

definition client_ip_data :: "string \<Rightarrow> parameter" where
  "client_ip_data ip = p_map [(''http.client_ip'', p_string ip)]"

definition obfuscated_data :: parameter where
  "obfuscated_data =
     p_map [(''arg1'', p_map [(''password'', p_string ''string 1'')]),
            (''arg2'', p_string ''string 3'')]"

definition demo_store :: "waf_instance \<Rightarrow> waf_store" where
  "demo_store inst = \<lparr>objs = (\<lambda>a. inst), next_free = 1\<rparr>"

text \<open>
  The action table of the first case of the test ActionsAreSentAndParsed, cut down to
  two parameters, and the obfuscation regexes of the test ValidRunMonitorObfuscated.
\<close>

definition custom_block_table :: "(string \<times> action_entry) list" where
  "custom_block_table =
     [(''custom'', \<lparr>entry_type = ''block_request'',
                    entry_parameters = [(''status_code'', ''123''), (''custom_param'', ''foo'')]\<rparr>)]"

definition password_obfuscation :: obfuscation where
  "password_obfuscation =
     \<lparr>obf_key_regex = Some (contains ''password''), obf_value_regex = Some (contains ''string 3'')\<rparr>"

section \<open>Properties of the two loop bodies of publish\<close>

lemma fold_insort_insert_sorted:
  "sorted acc \<Longrightarrow> distinct acc \<Longrightarrow> sorted (fold insort_insert v acc) \<and> distinct (fold insort_insert v acc)"
  by (induction v arbitrary: acc) (simp_all add: sorted_insort_insert distinct_insort_insert)

lemma set_fold_insort_insert: "set (fold insort_insert v acc) = set v \<union> set acc"
  by (induction v arbitrary: acc) (auto simp: set_insort_insert)

lemma collect_subs_sorted:
  "sorted acc \<Longrightarrow> distinct acc \<Longrightarrow>
   sorted (collect_subs subs ks acc) \<and> distinct (collect_subs subs ks acc)"
proof (induction ks arbitrary: acc)
  case Nil
  then show ?case by simp
next
  case (Cons k ks)
  show ?case
  proof (cases "subs k")
    case None
    with Cons show ?thesis by simp
  next
    case (Some v)
    from Cons.prems have "sorted (fold insort_insert v acc) \<and> distinct (fold insort_insert v acc)"
      by (rule fold_insort_insert_sorted)
    with Cons.IH Some show ?thesis by simp
  qed
qed

lemma set_collect_subs:
  "set (collect_subs subs ks acc) =
   set acc \<union> {s. \<exists>k v. k \<in> set ks \<and> subs k = Some v \<and> s \<in> set v}"
proof (induction ks arbitrary: acc)
  case Nil
  then show ?case by simp
next
  case (Cons k ks)
  show ?case
  proof (cases "subs k")
    case None
    then show ?thesis using Cons.IH [of acc] by auto
  next
    case (Some v)
    then show ?thesis using Cons.IH [of "fold insort_insert v acc"]
      by (auto simp: set_fold_insort_insert)
  qed
qed

lemma distinct_sub_set_of: "distinct (sub_set_of subs data)"
  unfolding sub_set_of_def using collect_subs_sorted [of "[]"] by simp

lemma sorted_sub_set_of: "sorted (sub_set_of subs data)"
  unfolding sub_set_of_def using collect_subs_sorted [of "[]"] by simp

lemma find_listener_upd:
  "s \<noteq> sub \<Longrightarrow> find_listener H (ls(sub \<mapsto> l)) s = find_listener H ls s"
  by (simp add: find_listener_def)

lemma call_outcome_upd:
  "s \<noteq> sub \<Longrightarrow> call_outcome H (ls(sub \<mapsto> l)) data t s = call_outcome H ls data t s"
  by (simp add: call_outcome_def find_listener_upd)

lemma call_outcome_upd_mem:
  "s \<in> set rest \<Longrightarrow> sub \<notin> set rest \<Longrightarrow>
   call_outcome H (ls(sub \<mapsto> l)) data t s = call_outcome H ls data t s"
  by (rule call_outcome_upd) auto

lemma map_call_outcome_upd:
  "sub \<notin> set rest \<Longrightarrow>
   map (\<lambda>s. f (call_outcome H (ls(sub \<mapsto> l)) data t s)) rest =
   map (\<lambda>s. f (call_outcome H ls data t s)) rest"
  by (induction rest) (auto simp: call_outcome_upd)

lemma dispatch_distinct:
  "distinct ss \<Longrightarrow>
   list_all is_std_exception (failures (map (\<lambda>s. fst (call_outcome H ls data t s)) ss)) \<Longrightarrow>
   dispatch H data t ss (ls, res, lg) =
     (\<lambda>s. if s \<in> set ss then Some (snd (call_outcome H ls data t s)) else ls s,
      Inr (aggregate res (successes (map (\<lambda>s. fst (call_outcome H ls data t s)) ss))),
      lg @ map subscriber_failed (failures (map (\<lambda>s. fst (call_outcome H ls data t s)) ss)))"
proof (induction ss arbitrary: ls res lg)
  case Nil
  then show ?case by simp
next
  case (Cons sub rest)
  obtain out l' where c: "call_outcome H ls data t sub = (out, l')"
    by (cases "call_outcome H ls data t sub")
  from Cons.prems have nin: "sub \<notin> set rest" and d: "distinct rest" by simp_all
  have m: "map (\<lambda>s. fst (call_outcome H (ls(sub \<mapsto> l')) data t s)) rest =
            map (\<lambda>s. fst (call_outcome H ls data t s)) rest"
    using nin by (rule map_call_outcome_upd)
  have std: "list_all is_std_exception
      (failures (map (\<lambda>s. fst (call_outcome H ls data t s)) rest))"
    using Cons.prems(2) c by (cases out) simp_all
  then have std': "list_all is_std_exception
      (failures (map (\<lambda>s. fst (call_outcome H (ls(sub \<mapsto> l')) data t s)) rest))"
    by (simp only: m)
  have st: "(\<lambda>s. if s \<in> set rest then Some (snd (call_outcome H (ls(sub \<mapsto> l')) data t s))
                 else (ls(sub \<mapsto> l')) s) =
            (\<lambda>s. if s \<in> set (sub # rest) then Some (snd (call_outcome H ls data t s)) else ls s)"
    using nin c by (auto simp: fun_eq_iff call_outcome_upd_mem)
  have step: "dispatch H data t rest (ls(sub \<mapsto> l'), R, L) =
      (\<lambda>s. if s \<in> set (sub # rest) then Some (snd (call_outcome H ls data t s)) else ls s,
       Inr (aggregate R (successes (map (\<lambda>s. fst (call_outcome H ls data t s)) rest))),
       L @ map subscriber_failed (failures (map (\<lambda>s. fst (call_outcome H ls data t s)) rest)))"
    for R L
    by (simp only: Cons.IH [OF d std'] m st)
  from c have c': "call (H sub) (find_listener H ls sub) data t = (out, l')"
    by (simp add: call_outcome_def)
  show ?case
  proof (cases out)
    case (Inl e)
    with Cons.prems(2) c have "is_std_exception e" by simp
    with Inl show ?thesis using c c' by (simp add: step)
  next
    case (Inr call_res)
    then show ?thesis using c c' by (simp add: step)
  qed
qed

lemma dispatch_escapes:
  "distinct ss \<Longrightarrow>
   \<not> list_all is_std_exception (failures (map (\<lambda>s. fst (call_outcome H ls data t s)) ss)) \<Longrightarrow>
   \<exists>e. fst (snd (dispatch H data t ss (ls, res, lg))) = Inl e \<and> \<not> is_std_exception e"
proof (induction ss arbitrary: ls res lg)
  case Nil
  then show ?case by simp
next
  case (Cons sub rest)
  obtain out l' where c: "call_outcome H ls data t sub = (out, l')"
    by (cases "call_outcome H ls data t sub")
  from Cons.prems have nin: "sub \<notin> set rest" and d: "distinct rest" by simp_all
  have m: "map (\<lambda>s. fst (call_outcome H (ls(sub \<mapsto> l')) data t s)) rest =
            map (\<lambda>s. fst (call_outcome H ls data t s)) rest"
    using nin by (rule map_call_outcome_upd)
  from c have c': "call (H sub) (find_listener H ls sub) data t = (out, l')"
    by (simp add: call_outcome_def)
  have step: "\<exists>e. fst (snd (dispatch H data t rest (ls(sub \<mapsto> l'), R, L))) = Inl e \<and>
      \<not> is_std_exception e"
    if "\<not> list_all is_std_exception
        (failures (map (\<lambda>s. fst (call_outcome H ls data t s)) rest))" for R L
  proof -
    have "\<not> list_all is_std_exception
        (failures (map (\<lambda>s. fst (call_outcome H (ls(sub \<mapsto> l')) data t s)) rest))"
      unfolding m by (rule that)
    with d show ?thesis by (rule Cons.IH)
  qed
  show ?case
  proof (cases out)
    case (Inr call_res)
    with Cons.prems(2) c have n: "\<not> list_all is_std_exception
        (failures (map (\<lambda>s. fst (call_outcome H ls data t s)) rest))"
      by simp
    have "dispatch H data t (sub # rest) (ls, res, lg) =
        dispatch H data t rest (ls(sub \<mapsto> l'),
          if res_value call_res > res_value res then call_res else res, lg)"
      using Inr c' by simp
    with step [OF n] show ?thesis by (simp only:)
  next
    case (Inl e)
    show ?thesis
    proof (cases "is_std_exception e")
      case True
      with Cons.prems(2) c Inl have n: "\<not> list_all is_std_exception
          (failures (map (\<lambda>s. fst (call_outcome H ls data t s)) rest))"
        by simp
      have "dispatch H data t (sub # rest) (ls, res, lg) =
          dispatch H data t rest (ls(sub \<mapsto> l'), res, lg @ [subscriber_failed e])"
        using Inl True c' by simp
      with step [OF n] show ?thesis by (simp only:)
    next
      case False
      with Inl c' show ?thesis by simp
    qed
  qed
qed

lemma dispatch_listeners:
  "distinct ss \<Longrightarrow>
   fst (dispatch H data t ss (ls, res, lg)) s = ls s \<or>
   s \<in> set ss \<and>
   fst (dispatch H data t ss (ls, res, lg)) s = Some (snd (call_outcome H ls data t s))"
proof (induction ss arbitrary: ls res lg)
  case Nil
  then show ?case by simp
next
  case (Cons sub rest)
  obtain out l' where c: "call_outcome H ls data t sub = (out, l')"
    by (cases "call_outcome H ls data t sub")
  from Cons.prems have nin: "sub \<notin> set rest" and d: "distinct rest" by simp_all
  from c have c': "call (H sub) (find_listener H ls sub) data t = (out, l')"
    by (simp add: call_outcome_def)
  have step: "fst (dispatch H data t rest (ls(sub \<mapsto> l'), R, L)) s = ls s \<or>
      s \<in> set (sub # rest) \<and>
      fst (dispatch H data t rest (ls(sub \<mapsto> l'), R, L)) s =
        Some (snd (call_outcome H ls data t s))" for R L
  proof -
    let ?F = "fst (dispatch H data t rest (ls(sub \<mapsto> l'), R, L)) s"
    have ih: "?F = (ls(sub \<mapsto> l')) s \<or>
        s \<in> set rest \<and> ?F = Some (snd (call_outcome H (ls(sub \<mapsto> l')) data t s))"
      using d by (rule Cons.IH)
    show ?thesis
    proof (cases "s = sub")
      case True
      with nin ih have "?F = Some l'" by simp
      with True c show ?thesis by simp
    next
      case False
      then have "call_outcome H (ls(sub \<mapsto> l')) data t s = call_outcome H ls data t s"
        by (rule call_outcome_upd)
      with False ih show ?thesis by auto
    qed
  qed
  show ?case
  proof (cases out)
    case (Inr call_res)
    have "dispatch H data t (sub # rest) (ls, res, lg) =
        dispatch H data t rest (ls(sub \<mapsto> l'),
          if res_value call_res > res_value res then call_res else res, lg)"
      using Inr c' by simp
    with step show ?thesis by (simp only:)
  next
    case (Inl e)
    show ?thesis
    proof (cases "is_std_exception e")
      case True
      have "dispatch H data t (sub # rest) (ls, res, lg) =
          dispatch H data t rest (ls(sub \<mapsto> l'), res, lg @ [subscriber_failed e])"
        using Inl True c' by simp
      with step show ?thesis by (simp only:)
    next
      case False
      with Inl c c' show ?thesis by simp
    qed
  qed
qed

lemma publish_listeners:
  assumes "is_map param"
  shows "listeners (fst (snd (publish H subs ctx param timeout))) s = listeners ctx s \<or>
     listeners (fst (snd (publish H subs ctx param timeout))) s =
       Some (snd (call_outcome H (listeners ctx) param timeout s))"
  using assms
    dispatch_listeners [OF distinct_sub_set_of, of H param timeout subs param "listeners ctx"
      default_result "map data_pushed (keys param)" s]
  by (auto simp: publish_def Let_def sub_set_of_def [symmetric] split: prod.splits)

lemma aggregate_cases: "aggregate res rs = res \<or> aggregate res rs \<in> set rs"
  by (induction rs arbitrary: res) (auto split: if_splits)

lemma aggregate_ge_init: "res_value res \<le> res_value (aggregate res rs)"
proof (induction rs arbitrary: res)
  case Nil
  then show ?case by simp
next
  case (Cons r rs)
  show ?case using Cons.IH [of "if res_value r > res_value res then r else res"]
    by (simp split: if_splits)
qed

lemma aggregate_ge: "r \<in> set rs \<Longrightarrow> res_value r \<le> res_value (aggregate res rs)"
proof (induction rs arbitrary: res)
  case Nil
  then show ?case by simp
next
  case (Cons x rs)
  show ?case
  proof (cases "r = x")
    case True
    then show ?thesis
      using aggregate_ge_init [of "if res_value x > res_value res then x else res" rs]
      by (simp split: if_splits)
  next
    case False
    with Cons.prems have "r \<in> set rs" by simp
    from Cons.IH [OF this] show ?thesis by simp
  qed
qed

lemma aggregate_eq_init:
  "res_value (aggregate res rs) = res_value res \<Longrightarrow> aggregate res rs = res"
proof (induction rs arbitrary: res)
  case Nil
  then show ?case by simp
next
  case (Cons x rs)
  let ?res' = "if res_value x > res_value res then x else res"
  from Cons.prems have e: "res_value (aggregate ?res' rs) = res_value res" by simp
  have "res_value ?res' \<le> res_value (aggregate ?res' rs)" by (rule aggregate_ge_init)
  with e have n: "\<not> res_value x > res_value res" by (auto split: if_splits)
  with e Cons.IH [of res] show ?case by simp
qed

lemma aggregate_first:
  "res_value res < res_value (aggregate res rs) \<Longrightarrow>
   \<exists>i<length rs. aggregate res rs = rs ! i \<and> (\<forall>j<i. res_value (rs ! j) < res_value (rs ! i))"
proof (induction rs arbitrary: res)
  case Nil
  then show ?case by simp
next
  case (Cons x rs)
  let ?res' = "if res_value x > res_value res then x else res"
  have a: "aggregate res (x # rs) = aggregate ?res' rs" by simp
  show ?case
  proof (cases "res_value ?res' < res_value (aggregate ?res' rs)")
    case True
    from Cons.IH [OF True] obtain i where i: "i < length rs" "aggregate ?res' rs = rs ! i"
      "\<forall>j<i. res_value (rs ! j) < res_value (rs ! i)" by blast
    have "res_value x < res_value (rs ! i)" using True i(2) by (simp split: if_splits)
    then have "\<forall>j<Suc i. res_value ((x # rs) ! j) < res_value ((x # rs) ! Suc i)"
      using i(3) by (auto simp: nth_Cons split: nat.splits)
    with i(1,2) a show ?thesis
      by (intro exI [of _ "Suc i"]) simp
  next
    case False
    with aggregate_ge_init [of ?res' rs] have eq: "res_value (aggregate ?res' rs) = res_value ?res'"
      by simp
    then have ag: "aggregate ?res' rs = ?res'" by (rule aggregate_eq_init)
    with Cons.prems have "res_value res < res_value ?res'" by simp
    then have "?res' = x" by (simp split: if_splits)
    with ag a show ?thesis by (intro exI [of _ 0]) simp
  qed
qed

lemma publish_map:
  assumes "is_map param"
    and "only_std_exceptions (call_outcomes H subs ctx param timeout)"
  shows "publish H subs ctx param timeout =
    (Inr (aggregate default_result (successes (call_outcomes H subs ctx param timeout))),
     ctx\<lparr>prev_published_params := prev_published_params ctx @ [param],
         listeners := (\<lambda>s. if s \<in> set (sub_set_of subs param)
                            then Some (snd (call_outcome H (listeners ctx) param timeout s))
                            else listeners ctx s)\<rparr>,
     map data_pushed (keys param) @
       map subscriber_failed (failures (call_outcomes H subs ctx param timeout)))"
proof -
  from assms(2) have std: "list_all is_std_exception
      (failures (map (\<lambda>s. fst (call_outcome H (listeners ctx) param timeout s))
         (sub_set_of subs param)))"
    by (simp add: only_std_exceptions_def call_outcomes_def)
  show ?thesis
    using assms(1)
    by (simp add: publish_def Let_def call_outcomes_def sub_set_of_def [symmetric]
        dispatch_distinct [OF distinct_sub_set_of std])
qed

lemma publish_escapes:
  assumes "is_map param"
    and "\<not> only_std_exceptions (call_outcomes H subs ctx param timeout)"
  shows "\<exists>e. fst (publish H subs ctx param timeout) = Inl e \<and> \<not> is_std_exception e"
proof -
  from assms(2) have "\<not> list_all is_std_exception
      (failures (map (\<lambda>s. fst (call_outcome H (listeners ctx) param timeout s))
         (sub_set_of subs param)))"
    by (simp add: only_std_exceptions_def call_outcomes_def)
  from dispatch_escapes [OF distinct_sub_set_of this, of default_result "map data_pushed (keys param)"]
  show ?thesis
    using assms(1)
    by (auto simp: publish_def Let_def sub_set_of_def [symmetric] split: prod.splits)
qed

lemmas demo_defs = demo_subscriber_def demo_heap_def demo_ctx_def demo_data_def
  subscribe_def subscribe_addr_def publish_def keys_def find_listener_def
  insort_insert_key_def default_result_def

lemma successes_filter:
  "successes (map f (filter (\<lambda>s. \<not> isl (f s)) ss)) = successes (map f ss)"
proof (induction ss)
  case Nil
  then show ?case by simp
next
  case (Cons s ss)
  then show ?case by (cases "f s") simp_all
qed

lemma successes_removeAll:
  "f s = Inl e \<Longrightarrow> successes (map f (removeAll s ss)) = successes (map f ss)"
proof (induction ss)
  case Nil
  then show ?case by simp
next
  case (Cons x ss)
  then show ?case by (cases "f x") auto
qed

lemma failures_mem:
  "s \<in> set ss \<Longrightarrow> f s = Inl e \<Longrightarrow> e \<in> set (failures (map f ss))"
proof (induction ss)
  case Nil
  then show ?case by simp
next
  case (Cons x ss)
  then show ?case by (cases "f x") auto
qed

lemma failures_filter:
  "failures (map f (filter (\<lambda>s. \<not> isl (f s)) ss)) = []"
proof (induction ss)
  case Nil
  then show ?case by simp
next
  case (Cons s ss)
  then show ?case by (cases "f s") simp_all
qed

lemma failures_removeAll:
  "list_all P (failures (map f ss)) \<Longrightarrow> list_all P (failures (map f (removeAll s ss)))"
proof (induction ss)
  case Nil
  then show ?case by simp
next
  case (Cons x ss)
  then show ?case by (cases "f x") auto
qed

lemma dispatch_result:
  "distinct ss \<Longrightarrow>
   list_all is_std_exception (failures (map (\<lambda>s. fst (call_outcome H ls data t s)) ss)) \<Longrightarrow>
   fst (snd (dispatch H data t ss (ls, res, lg))) =
   Inr (aggregate res (successes (map (\<lambda>s. fst (call_outcome H ls data t s)) ss)))"
  by (simp add: dispatch_distinct)

lemma subscribe_addr_same:
  "subscribe_addr sub a subs a = Some ((case subs a of None \<Rightarrow> [] | Some v \<Rightarrow> v) @ [sub])"
  by (simp add: subscribe_addr_def split: option.splits)

lemma subscribe_addr_other:
  "x \<noteq> a \<Longrightarrow> subscribe_addr sub x subs a = subs a"
  by (simp add: subscribe_addr_def split: option.splits)

lemma fold_subscribe_addr:
  "fold (subscribe_addr sub) addrs subs a =
     (if a \<in> set addrs
      then Some ((case subs a of None \<Rightarrow> [] | Some v \<Rightarrow> v) @ replicate (count_list addrs a) sub)
      else subs a)"
proof (induction addrs arbitrary: subs)
  case Nil
  then show ?case by simp
next
  case (Cons x xs)
  show ?case
  proof (cases "x = a")
    case True
    then show ?thesis
      by (simp add: Cons.IH subscribe_addr_same replicate_append_same count_list_0_iff)
  next
    case False
    then show ?thesis
      by (simp add: Cons.IH subscribe_addr_other)
  qed
qed

lemma count_list_replicate: "count_list (replicate n x) x = n"
  by (induction n) simp_all

lemma count_list_distinct: "distinct xs \<Longrightarrow> x \<in> set xs \<Longrightarrow> count_list xs x = 1"
  by (induction xs) (auto simp: count_list_0_iff)

section \<open>The claims about the engine\<close>

text \<open>
  Claim C1. For a map, publish returns a result when no listener throws an object that
  its handler does not catch, and whenever publish returns a result \<open>res\<close>, with
  \<open>rs\<close> the results of the listener calls that returned, in iteration order: no
  result in \<open>rs\<close> is more severe than \<open>res\<close>; when no result in \<open>rs\<close> is above the severity of the
  default result, \<open>res\<close> is the default result, and otherwise \<open>res\<close> is the first
  element of \<open>rs\<close> with the highest severity, every earlier one being strictly less
  severe (a later result of equal severity never replaces it). In particular, when
  exactly one subscriber fires (its result is above the default severity and no other
  is), \<open>res\<close> is that subscriber's result; and when two results differ in severity
  and no third fires, \<open>res\<close> is the more severe of the two.
\<close>

theorem publish_keeps_highest_first_seen:
  assumes "is_map param"
  shows "(only_std_exceptions (call_outcomes H subs ctx param timeout) \<longrightarrow>
       (\<exists>res. fst (publish H subs ctx param timeout) = Inr res)) \<and>
    (\<forall>res. fst (publish H subs ctx param timeout) = Inr res \<longrightarrow>
     (let rs = successes (call_outcomes H subs ctx param timeout) in
      (\<forall>r\<in>set rs. res_value r \<le> res_value res) \<and>
      (if \<forall>r\<in>set rs. res_value r = res_value default_result then res = default_result
       else \<exists>i<length rs. res = rs ! i \<and> (\<forall>j<i. res_value (rs ! j) < res_value res)) \<and>
      (\<forall>i<length rs.
         res_value default_result < res_value (rs ! i) \<and>
         (\<forall>j<length rs. j \<noteq> i \<longrightarrow> res_value (rs ! j) = res_value default_result)
         \<longrightarrow> res = rs ! i) \<and>
      (\<forall>i<length rs. \<forall>j<length rs.
         res_value (rs ! i) < res_value (rs ! j) \<and>
         (\<forall>k<length rs. k \<noteq> i \<and> k \<noteq> j \<longrightarrow> res_value (rs ! k) = res_value default_result)
         \<longrightarrow> res = rs ! j)))"
proof -
  define rs where "rs = successes (call_outcomes H subs ctx param timeout)"
  define res where "res = aggregate default_result rs"
  have out: "fst (publish H subs ctx param timeout) = Inr res"
    if "only_std_exceptions (call_outcomes H subs ctx param timeout)"
    using assms that by (simp add: publish_map res_def rs_def)
  have same: "r = res" if "fst (publish H subs ctx param timeout) = Inr r" for r
  proof -
    have "only_std_exceptions (call_outcomes H subs ctx param timeout)"
    proof (rule ccontr)
      assume "\<not> only_std_exceptions (call_outcomes H subs ctx param timeout)"
      from publish_escapes [OF assms this] that show False by auto
    qed
    from out [OF this] that show ?thesis by simp
  qed
  have ge: "\<forall>r\<in>set rs. res_value r \<le> res_value res"
    unfolding res_def by (simp add: aggregate_ge)
  have d0: "res_value default_result = 0" by (simp add: default_result_def)
  have first: "\<exists>i<length rs. res = rs ! i \<and> (\<forall>j<i. res_value (rs ! j) < res_value res)"
    if "0 < res_value res"
  proof -
    from that have "res_value default_result < res_value (aggregate default_result rs)"
      by (simp add: res_def d0)
    from aggregate_first [OF this] show ?thesis by (auto simp: res_def)
  qed
  have none: "res = default_result" if "\<forall>r\<in>set rs. res_value r = 0"
  proof -
    from aggregate_cases [of default_result rs] that
    have "res_value (aggregate default_result rs) = res_value default_result"
      by (auto simp: d0)
    then show ?thesis unfolding res_def by (rule aggregate_eq_init)
  qed
  have some: "0 < res_value res" if "r \<in> set rs" "0 < res_value r" for r
    using ge that by fastforce
  have tie: "if \<forall>r\<in>set rs. res_value r = res_value default_result then res = default_result
       else \<exists>i<length rs. res = rs ! i \<and> (\<forall>j<i. res_value (rs ! j) < res_value res)"
  proof (cases "\<forall>r\<in>set rs. res_value r = 0")
    case True
    with none show ?thesis by (simp add: d0)
  next
    case False
    then obtain r where "r \<in> set rs" "0 < res_value r" by auto
    then have "0 < res_value res" by (rule some)
    from first [OF this] False show ?thesis unfolding d0 by (simp only: if_False)
  qed
  have one: "res = rs ! i"
    if i: "i < length rs" "0 < res_value (rs ! i)"
      and o: "\<forall>j<length rs. j \<noteq> i \<longrightarrow> res_value (rs ! j) = 0" for i
  proof -
    from i have "0 < res_value res" using some [of "rs ! i"] by simp
    from first [OF this] obtain i' where i': "i' < length rs" "res = rs ! i'" by blast
    have "i' = i"
    proof (rule ccontr)
      assume "i' \<noteq> i"
      with o i' have "res_value res = 0" by simp
      with \<open>0 < res_value res\<close> show False by simp
    qed
    with i' show ?thesis by simp
  qed
  have two: "res = rs ! j"
    if ij: "i < length rs" "j < length rs" "res_value (rs ! i) < res_value (rs ! j)"
      and o: "\<forall>k<length rs. k \<noteq> i \<and> k \<noteq> j \<longrightarrow> res_value (rs ! k) = 0" for i j
  proof -
    from ij ge have gej: "res_value (rs ! j) \<le> res_value res" by simp
    with ij have pos: "0 < res_value res" by simp
    from first [OF this] obtain i' where i': "i' < length rs" "res = rs ! i'" by blast
    have "i' \<noteq> i" using gej ij(3) i' by auto
    have "i' = j"
    proof (rule ccontr)
      assume "i' \<noteq> j"
      with o i' \<open>i' \<noteq> i\<close> have "res_value res = 0" by simp
      with pos show False by simp
    qed
    with i' show ?thesis by simp
  qed
  have props: "(\<forall>r\<in>set rs. res_value r \<le> res_value res) \<and>
      (if \<forall>r\<in>set rs. res_value r = res_value default_result then res = default_result
       else \<exists>i<length rs. res = rs ! i \<and> (\<forall>j<i. res_value (rs ! j) < res_value res)) \<and>
      (\<forall>i<length rs.
         res_value default_result < res_value (rs ! i) \<and>
         (\<forall>j<length rs. j \<noteq> i \<longrightarrow> res_value (rs ! j) = res_value default_result)
         \<longrightarrow> res = rs ! i) \<and>
      (\<forall>i<length rs. \<forall>j<length rs.
         res_value (rs ! i) < res_value (rs ! j) \<and>
         (\<forall>k<length rs. k \<noteq> i \<and> k \<noteq> j \<longrightarrow> res_value (rs ! k) = res_value default_result)
         \<longrightarrow> res = rs ! j)"
    using ge tie one two by (simp add: d0)
  have "\<exists>r. fst (publish H subs ctx param timeout) = Inr r"
    if "only_std_exceptions (call_outcomes H subs ctx param timeout)"
    using out [OF that] by blast
  moreover have "\<forall>r. fst (publish H subs ctx param timeout) = Inr r \<longrightarrow>
     (let rs = successes (call_outcomes H subs ctx param timeout) in
      (\<forall>x\<in>set rs. res_value x \<le> res_value r) \<and>
      (if \<forall>x\<in>set rs. res_value x = res_value default_result then r = default_result
       else \<exists>i<length rs. r = rs ! i \<and> (\<forall>j<i. res_value (rs ! j) < res_value r)) \<and>
      (\<forall>i<length rs.
         res_value default_result < res_value (rs ! i) \<and>
         (\<forall>j<length rs. j \<noteq> i \<longrightarrow> res_value (rs ! j) = res_value default_result)
         \<longrightarrow> r = rs ! i) \<and>
      (\<forall>i<length rs. \<forall>j<length rs.
         res_value (rs ! i) < res_value (rs ! j) \<and>
         (\<forall>k<length rs. k \<noteq> i \<and> k \<noteq> j \<longrightarrow> res_value (rs ! k) = res_value default_result)
         \<longrightarrow> r = rs ! j))"
  proof (intro allI impI)
    fix r
    assume "fst (publish H subs ctx param timeout) = Inr r"
    then have "r = res" by (rule same)
    with props show "let rs = successes (call_outcomes H subs ctx param timeout) in
      (\<forall>x\<in>set rs. res_value x \<le> res_value r) \<and>
      (if \<forall>x\<in>set rs. res_value x = res_value default_result then r = default_result
       else \<exists>i<length rs. r = rs ! i \<and> (\<forall>j<i. res_value (rs ! j) < res_value r)) \<and>
      (\<forall>i<length rs.
         res_value default_result < res_value (rs ! i) \<and>
         (\<forall>j<length rs. j \<noteq> i \<longrightarrow> res_value (rs ! j) = res_value default_result)
         \<longrightarrow> r = rs ! i) \<and>
      (\<forall>i<length rs. \<forall>j<length rs.
         res_value (rs ! i) < res_value (rs ! j) \<and>
         (\<forall>k<length rs. k \<noteq> i \<and> k \<noteq> j \<longrightarrow> res_value (rs ! k) = res_value default_result)
         \<longrightarrow> r = rs ! j)"
      unfolding rs_def [symmetric] Let_def by simp
  qed
  ultimately show ?thesis by blast
qed

theorem publish_keeps_highest_first_seen_witness:
  "is_map demo_data \<and>
   only_std_exceptions (call_outcomes demo_heap demo_subs demo_ctx demo_data 0) \<and>
   (\<exists>res. fst (publish demo_heap demo_subs demo_ctx demo_data 0) = Inr res \<and>
     (let rs = successes (call_outcomes demo_heap demo_subs demo_ctx demo_data 0) in
      (\<forall>r\<in>set rs. res_value r \<le> res_value res) \<and>
      (if \<forall>r\<in>set rs. res_value r = res_value default_result then res = default_result
       else \<exists>i<length rs. res = rs ! i \<and> (\<forall>j<i. res_value (rs ! j) < res_value res)) \<and>
      (\<forall>i<length rs.
         res_value default_result < res_value (rs ! i) \<and>
         (\<forall>j<length rs. j \<noteq> i \<longrightarrow> res_value (rs ! j) = res_value default_result)
         \<longrightarrow> res = rs ! i) \<and>
      (\<forall>i<length rs. \<forall>j<length rs.
         res_value (rs ! i) < res_value (rs ! j) \<and>
         (\<forall>k<length rs. k \<noteq> i \<and> k \<noteq> j \<longrightarrow> res_value (rs ! k) = res_value default_result)
         \<longrightarrow> res = rs ! j))) \<and>
   successes (call_outcomes demo_heap demo_subs demo_ctx demo_data 0) =
     [\<lparr>res_value = 1, res_data = [''m1'']\<rparr>, \<lparr>res_value = 2, res_data = [''m3'']\<rparr>,
      \<lparr>res_value = 2, res_data = [''m5'']\<rparr>] \<and>
   fst (publish demo_heap demo_subs demo_ctx demo_data 0) = Inr \<lparr>res_value = 2, res_data = [''m3'']\<rparr>"
proof -
  have h: "is_map demo_data" by (simp add: demo_data_def)
  have s: "successes (call_outcomes demo_heap demo_subs demo_ctx demo_data 0) =
     [\<lparr>res_value = 1, res_data = [''m1'']\<rparr>, \<lparr>res_value = 2, res_data = [''m3'']\<rparr>,
      \<lparr>res_value = 2, res_data = [''m5'']\<rparr>]"
    by (simp add: call_outcomes_def call_outcome_def sub_set_of_def demo_subs_def demo_defs)
  have p: "fst (publish demo_heap demo_subs demo_ctx demo_data 0) =
     Inr \<lparr>res_value = 2, res_data = [''m3'']\<rparr>"
    by (simp add: demo_subs_def demo_defs)
  have o: "only_std_exceptions (call_outcomes demo_heap demo_subs demo_ctx demo_data 0)"
    by (simp add: only_std_exceptions_def call_outcomes_def call_outcome_def sub_set_of_def
        demo_subs_def demo_defs)
  from publish_keeps_highest_first_seen [OF h, of demo_heap demo_subs demo_ctx 0] h o s p
  show ?thesis by blast
qed

text \<open>
  Claim C2, as amended. For a map, when every error the listeners throw during
  \<open>call\<close> is a \<open>std::exception\<close>, which is what the handler of publish catches,
  publish does not throw: it returns a result; every subscriber of the deduplicated set
  has had its listener called (the cache holds the state its call left), also those
  that come after a failing one; the log holds one \<open>subscriber_failed\<close> entry for each
  exception, in order; and the result is the one the loop computes over the subscribers
  whose call returned, so a failing call contributes nothing to it. The claim as stated
  (of every error thrown during \<open>call\<close>) fails: an object that is not a
  \<open>std::exception\<close>, thrown by the second of three subscribers, leaves publish, is
  not logged, and the third subscriber is never called.
\<close>

theorem publish_isolates_subscriber_failure:
  assumes "is_map param"
    and "only_std_exceptions (call_outcomes H subs ctx param timeout)"
  shows "\<exists>res ctx' lg.
     publish H subs ctx param timeout = (Inr res, ctx', lg) \<and>
     (\<forall>sub\<in>set (sub_set_of subs param).
        listeners ctx' sub = Some (snd (call_outcome H (listeners ctx) param timeout sub))) \<and>
     lg = map data_pushed (keys param) @
          map subscriber_failed (failures (call_outcomes H subs ctx param timeout)) \<and>
     fst (snd (dispatch H param timeout
             (filter (\<lambda>sub. \<not> isl (fst (call_outcome H (listeners ctx) param timeout sub)))
                (sub_set_of subs param))
             (listeners ctx, default_result, []))) = Inr res"
proof -
  let ?f = "\<lambda>sub. fst (call_outcome H (listeners ctx) param timeout sub)"
  let ?ok = "filter (\<lambda>sub. \<not> isl (?f sub)) (sub_set_of subs param)"
  have d: "distinct ?ok"
    using distinct_sub_set_of by (rule distinct_filter)
  have n: "list_all is_std_exception (failures (map ?f ?ok))"
    by (simp add: failures_filter)
  have "fst (snd (dispatch H param timeout ?ok (listeners ctx, default_result, []))) =
        Inr (aggregate default_result (successes (call_outcomes H subs ctx param timeout)))"
    unfolding dispatch_result [OF d n] call_outcomes_def by (simp only: successes_filter)
  then show ?thesis
    using assms by (simp add: publish_map)
qed

theorem publish_isolates_subscriber_failure_witness:
  "is_map demo_data \<and>
   only_std_exceptions (call_outcomes demo_heap demo_subs demo_ctx demo_data 0) \<and>
   (\<exists>res ctx' lg.
     publish demo_heap demo_subs demo_ctx demo_data 0 = (Inr res, ctx', lg) \<and>
     (\<forall>sub\<in>set (sub_set_of demo_subs demo_data).
        listeners ctx' sub =
          Some (snd (call_outcome demo_heap (listeners demo_ctx) demo_data 0 sub))) \<and>
     lg = map data_pushed (keys demo_data) @
          map subscriber_failed (failures (call_outcomes demo_heap demo_subs demo_ctx demo_data 0)) \<and>
     fst (snd (dispatch demo_heap demo_data 0
             (filter (\<lambda>sub. \<not> isl (fst (call_outcome demo_heap (listeners demo_ctx) demo_data 0 sub)))
                (sub_set_of demo_subs demo_data))
             (listeners demo_ctx, default_result, []))) = Inr res) \<and>
   sub_set_of demo_subs demo_data = [1, 2, 3, 5] \<and>
   fst (call_outcome demo_heap (listeners demo_ctx) demo_data 0 2) = Inl (std_exception ''boom'') \<and>
   snd (call_outcome demo_heap (listeners demo_ctx) demo_data 0 3) = Suc 0"
proof -
  have h: "is_map demo_data" by (simp add: demo_data_def)
  have o: "only_std_exceptions (call_outcomes demo_heap demo_subs demo_ctx demo_data 0)"
    by (simp add: only_std_exceptions_def call_outcomes_def call_outcome_def sub_set_of_def
        demo_subs_def demo_defs)
  have s: "sub_set_of demo_subs demo_data = [1, 2, 3, 5]"
    by (simp add: sub_set_of_def demo_subs_def demo_defs)
  have c: "fst (call_outcome demo_heap (listeners demo_ctx) demo_data 0 2) = Inl (std_exception ''boom'')"
    "snd (call_outcome demo_heap (listeners demo_ctx) demo_data 0 3) = Suc 0"
    by (simp_all add: call_outcome_def demo_defs)
  from publish_isolates_subscriber_failure [OF h o] h o s c
  show ?thesis by blast
qed

theorem publish_escape_counterexample:
  "sub_set_of demo_subs_escape demo_data = [1, 6, 7] \<and>
   fst (call_outcome demo_heap (listeners demo_ctx) demo_data 0 6) = Inl (thrown_object ''int 42'') \<and>
   publish demo_heap demo_subs_escape demo_ctx demo_data 0 =
     (Inl (thrown_object ''int 42''),
      \<lparr>listeners = [1 \<mapsto> Suc 0, 6 \<mapsto> Suc 0], prev_published_params = [demo_data]\<rparr>,
      [data_pushed ''arg1'', data_pushed ''arg2'']) \<and>
   listeners (fst (snd (publish demo_heap demo_subs_escape demo_ctx demo_data 0))) 7 = None"
  by (simp add: sub_set_of_def call_outcome_def demo_subs_escape_def demo_defs)

text \<open>
  Claim C3. For a parameter that is not a map, publish throws
  \<open>invalid_object(".", "not a map")\<close> whatever the subscription table holds, before
  either loop: nothing is logged and the listener cache is the one the context had, so no
  listener was created or called.
\<close>

theorem publish_not_a_map:
  assumes "\<not> is_map param"
  shows "publish H subs ctx param timeout =
     (Inl (invalid_object ''.'' ''not a map''),
      ctx\<lparr>prev_published_params := prev_published_params ctx @ [param]\<rparr>, []) \<and>
     listeners (fst (snd (publish H subs ctx param timeout))) = listeners ctx"
  using assms by (simp add: publish_def)

theorem publish_not_a_map_witness:
  "\<not> is_map (p_array [p_string ''arg1'']) \<and>
   publish demo_heap demo_subs demo_ctx (p_array [p_string ''arg1'']) 0 =
     (Inl (invalid_object ''.'' ''not a map''),
      demo_ctx\<lparr>prev_published_params := prev_published_params demo_ctx @ [p_array [p_string ''arg1'']]\<rparr>, []) \<and>
     listeners (fst (snd (publish demo_heap demo_subs demo_ctx (p_array [p_string ''arg1'']) 0))) =
       listeners demo_ctx"
proof -
  have h: "\<not> is_map (p_array [p_string ''arg1''])" by simp
  from publish_not_a_map [OF h, of demo_heap demo_subs demo_ctx 0] h show ?thesis by blast
qed

text \<open>
  Claim C4, as amended. publish takes ownership of the parameter in every case: the
  parameter is appended to \<open>prev_published_params_\<close> before the map check, so the list
  after the call is the list before it followed by the parameter, also when publish
  throws because the parameter is not a map. The claim as stated (the list is left
  unchanged on that failure) fails: publishing a string into a context that retains
  nothing leaves that string retained.
\<close>

theorem publish_always_retains:
  "prev_published_params (fst (snd (publish H subs ctx param timeout))) =
     prev_published_params ctx @ [param]"
  by (simp add: publish_def Let_def split: prod.splits)

theorem publish_failure_retains_counterexample:
  "fst (publish demo_heap demo_subs demo_ctx (p_string ''x'') 0) =
     Inl (invalid_object ''.'' ''not a map'') \<and>
   prev_published_params demo_ctx = [] \<and>
   prev_published_params (fst (snd (publish demo_heap demo_subs demo_ctx (p_string ''x'') 0))) =
     [p_string ''x'']"
  by (simp add: publish_def demo_ctx_def)

text \<open>
  Claim C5, as amended. A \<open>timeout_error\<close> thrown by a listener is caught like any
  other \<open>std::exception\<close>: when no listener throws an object that the handler does
  not catch, publish returns normally, the timeout is logged as a
  \<open>subscriber_failed\<close> entry and appears nowhere in the returned result, which is the
  one the loop computes over the other subscribers; these all have their listener
  called. The claim as stated (the timeout is reported in the returned result) fails:
  with a single subscriber that times out, publish returns the default result, the same
  as with no subscriber at all.
\<close>

theorem publish_timeout_is_caught:
  assumes "is_map param"
    and "sub \<in> set (sub_set_of subs param)"
    and "fst (call_outcome H (listeners ctx) param timeout sub) = Inl timeout_error"
    and "only_std_exceptions (call_outcomes H subs ctx param timeout)"
  shows "\<exists>res ctx' lg.
     publish H subs ctx param timeout = (Inr res, ctx', lg) \<and>
     subscriber_failed timeout_error \<in> set lg \<and>
     fst (snd (dispatch H param timeout (removeAll sub (sub_set_of subs param))
             (listeners ctx, default_result, []))) = Inr res \<and>
     (\<forall>s\<in>set (removeAll sub (sub_set_of subs param)).
        listeners ctx' s = Some (snd (call_outcome H (listeners ctx) param timeout s)))"
proof -
  let ?f = "\<lambda>s. fst (call_outcome H (listeners ctx) param timeout s)"
  have d: "distinct (removeAll sub (sub_set_of subs param))"
    using distinct_sub_set_of by (rule distinct_removeAll)
  from assms(4) have "list_all is_std_exception (failures (map ?f (sub_set_of subs param)))"
    by (simp add: only_std_exceptions_def call_outcomes_def)
  then have n: "list_all is_std_exception
      (failures (map ?f (removeAll sub (sub_set_of subs param))))"
    by (rule failures_removeAll)
  have r: "fst (snd (dispatch H param timeout (removeAll sub (sub_set_of subs param))
          (listeners ctx, default_result, []))) =
        Inr (aggregate default_result (successes (call_outcomes H subs ctx param timeout)))"
    unfolding dispatch_result [OF d n] call_outcomes_def
    using assms(3) by (simp only: successes_removeAll [of ?f])
  have "timeout_error \<in> set (failures (call_outcomes H subs ctx param timeout))"
    unfolding call_outcomes_def using assms(2,3) by (rule failures_mem)
  with r show ?thesis
    using assms(1,4) by (simp add: publish_map)
qed

theorem publish_timeout_is_caught_witness:
  "is_map demo_data \<and>
   4 \<in> set (sub_set_of (subscribe demo_heap 4 demo_subs) demo_data) \<and>
   fst (call_outcome demo_heap (listeners demo_ctx) demo_data 0 4) = Inl timeout_error \<and>
   only_std_exceptions
     (call_outcomes demo_heap (subscribe demo_heap 4 demo_subs) demo_ctx demo_data 0) \<and>
   (\<exists>res ctx' lg.
     publish demo_heap (subscribe demo_heap 4 demo_subs) demo_ctx demo_data 0 = (Inr res, ctx', lg) \<and>
     subscriber_failed timeout_error \<in> set lg \<and>
     fst (snd (dispatch demo_heap demo_data 0
             (removeAll 4 (sub_set_of (subscribe demo_heap 4 demo_subs) demo_data))
             (listeners demo_ctx, default_result, []))) = Inr res \<and>
     (\<forall>s\<in>set (removeAll 4 (sub_set_of (subscribe demo_heap 4 demo_subs) demo_data)).
        listeners ctx' s = Some (snd (call_outcome demo_heap (listeners demo_ctx) demo_data 0 s))))"
proof -
  have h1: "is_map demo_data" by (simp add: demo_data_def)
  have h2: "4 \<in> set (sub_set_of (subscribe demo_heap 4 demo_subs) demo_data)"
    by (simp add: sub_set_of_def demo_subs_def demo_defs)
  have h3: "fst (call_outcome demo_heap (listeners demo_ctx) demo_data 0 4) = Inl timeout_error"
    by (simp add: call_outcome_def demo_defs)
  have h4: "only_std_exceptions
     (call_outcomes demo_heap (subscribe demo_heap 4 demo_subs) demo_ctx demo_data 0)"
    by (simp add: only_std_exceptions_def call_outcomes_def call_outcome_def sub_set_of_def
        demo_subs_def demo_defs)
  from publish_timeout_is_caught [OF h1 h2 h3 h4] h1 h2 h3 h4 show ?thesis by blast
qed

theorem publish_timeout_counterexample:
  "sub_set_of (subscribe demo_heap 4 Map.empty) demo_data = [4] \<and>
   fst (call_outcome demo_heap (listeners demo_ctx) demo_data 0 4) = Inl timeout_error \<and>
   fst (publish demo_heap (subscribe demo_heap 4 Map.empty) demo_ctx demo_data 0) = Inr default_result \<and>
   fst (publish demo_heap Map.empty demo_ctx demo_data 0) = Inr default_result"
  by (simp add: sub_set_of_def call_outcome_def demo_defs)

text \<open>
  Claim C6, as amended. Registering the same subscriber twice puts it at least twice in
  the table under every address it declares, but a publish whose data has such an
  address as a key dispatches to it once and not once per registration: it occurs once
  in \<open>sub_set\<close>; the listener state after publish is never that of a second call (it
  is the state the context had or the state one single call leaves), and it is the
  state one single call leaves when no listener throws an object that the handler of
  publish does not catch. The claim as stated (one dispatch per registration) fails:
  after two registrations of a subscriber whose listener counts its calls, one publish
  leaves the count at 1.
\<close>

theorem duplicate_registration_dispatches_once:
  assumes "is_map param"
    and "addr \<in> set (get_subscriptions (H sub))"
    and "addr \<in> set (keys param)"
  shows "(\<exists>v. subscribe H sub (subscribe H sub subs) addr = Some v \<and> 2 \<le> count_list v sub) \<and>
     count_list (sub_set_of (subscribe H sub (subscribe H sub subs)) param) sub = 1 \<and>
     (listeners (fst (snd (publish H (subscribe H sub (subscribe H sub subs)) ctx param timeout))) sub =
        listeners ctx sub \<or>
      listeners (fst (snd (publish H (subscribe H sub (subscribe H sub subs)) ctx param timeout))) sub =
        Some (snd (call (H sub) (find_listener H (listeners ctx) sub) param timeout))) \<and>
     (only_std_exceptions
        (call_outcomes H (subscribe H sub (subscribe H sub subs)) ctx param timeout) \<longrightarrow>
      listeners (fst (snd (publish H (subscribe H sub (subscribe H sub subs)) ctx param timeout))) sub =
        Some (snd (call (H sub) (find_listener H (listeners ctx) sub) param timeout)))"
proof -
  let ?subs2 = "subscribe H sub (subscribe H sub subs)"
  let ?n = "count_list (get_subscriptions (H sub)) addr"
  let ?old = "case subs addr of None \<Rightarrow> [] | Some v \<Rightarrow> v"
  have n: "1 \<le> ?n" using assms(2) count_list_0_iff [of "get_subscriptions (H sub)" addr]
    by (cases ?n) auto
  have t: "?subs2 addr = Some ((?old @ replicate ?n sub) @ replicate ?n sub)"
    using assms(2) by (simp add: subscribe_def fold_subscribe_addr)
  have c: "2 \<le> count_list ((?old @ replicate ?n sub) @ replicate ?n sub) sub"
    using n by (simp add: count_list_replicate)
  have "sub \<in> set ((?old @ replicate ?n sub) @ replicate ?n sub)" using n by auto
  with t assms(3) have m: "sub \<in> set (sub_set_of ?subs2 param)"
    unfolding sub_set_of_def set_collect_subs by blast
  with distinct_sub_set_of have one: "count_list (sub_set_of ?subs2 param) sub = 1"
    by (rule count_list_distinct)
  have most: "listeners (fst (snd (publish H ?subs2 ctx param timeout))) sub = listeners ctx sub \<or>
      listeners (fst (snd (publish H ?subs2 ctx param timeout))) sub =
        Some (snd (call (H sub) (find_listener H (listeners ctx) sub) param timeout))"
    using publish_listeners [OF assms(1), of H ?subs2 ctx timeout sub]
    by (simp add: call_outcome_def)
  have exact: "listeners (fst (snd (publish H ?subs2 ctx param timeout))) sub =
       Some (snd (call (H sub) (find_listener H (listeners ctx) sub) param timeout))"
    if "only_std_exceptions (call_outcomes H ?subs2 ctx param timeout)"
    using m assms(1) that by (simp add: publish_map call_outcome_def)
  from t c one most exact show ?thesis by simp
qed

theorem duplicate_registration_dispatches_once_witness:
  "is_map demo_data \<and> ''arg1'' \<in> set (get_subscriptions (demo_heap 1)) \<and> ''arg1'' \<in> set (keys demo_data) \<and>
   only_std_exceptions
     (call_outcomes demo_heap (subscribe demo_heap 1 (subscribe demo_heap 1 Map.empty))
        demo_ctx demo_data 0) \<and>
   (\<exists>v. subscribe demo_heap 1 (subscribe demo_heap 1 Map.empty) ''arg1'' = Some v \<and> 2 \<le> count_list v 1) \<and>
     count_list (sub_set_of (subscribe demo_heap 1 (subscribe demo_heap 1 Map.empty)) demo_data) 1 = 1 \<and>
     listeners (fst (snd (publish demo_heap (subscribe demo_heap 1 (subscribe demo_heap 1 Map.empty))
        demo_ctx demo_data 0))) 1 =
       Some (snd (call (demo_heap 1) (find_listener demo_heap (listeners demo_ctx) 1) demo_data 0))"
proof -
  have h1: "is_map demo_data" by (simp add: demo_data_def)
  have h2: "''arg1'' \<in> set (get_subscriptions (demo_heap 1))" by (simp add: demo_defs)
  have h3: "''arg1'' \<in> set (keys demo_data)" by (simp add: demo_defs)
  have h4: "only_std_exceptions
     (call_outcomes demo_heap (subscribe demo_heap 1 (subscribe demo_heap 1 Map.empty))
        demo_ctx demo_data 0)"
    by (simp add: only_std_exceptions_def call_outcomes_def call_outcome_def sub_set_of_def
        demo_defs)
  from duplicate_registration_dispatches_once
    [where param = demo_data and addr = "''arg1''" and H = demo_heap and sub = 1
       and subs = Map.empty and ctx = demo_ctx and timeout = 0, OF h1 h2 h3] h1 h2 h3 h4
  show ?thesis by blast
qed

theorem duplicate_registration_counterexample:
  "subscribe demo_heap 1 (subscribe demo_heap 1 Map.empty) ''arg1'' = Some [1, 1] \<and>
   sub_set_of (subscribe demo_heap 1 (subscribe demo_heap 1 Map.empty)) demo_data = [1] \<and>
   listeners (fst (snd (publish demo_heap (subscribe demo_heap 1 (subscribe demo_heap 1 Map.empty))
      demo_ctx demo_data 0))) 1 = Some (Suc 0)"
  by (simp add: sub_set_of_def demo_defs)

text \<open>
  Claim C10. For a map none of whose keys is in the subscription table, publish
  returns the default result (severity 0, no data); the listener cache is untouched, so
  no listener was created or called; only the keys are logged.
\<close>

theorem publish_no_subscription:
  assumes "is_map param" and "\<forall>k\<in>set (keys param). subs k = None"
  shows "publish H subs ctx param timeout =
     (Inr default_result,
      ctx\<lparr>prev_published_params := prev_published_params ctx @ [param]\<rparr>,
      map data_pushed (keys param))"
proof -
  have "collect_subs subs ks acc = acc" if "\<forall>k\<in>set ks. subs k = None" for ks acc
    using that by (induction ks arbitrary: acc) simp_all
  from this [OF assms(2)] have "sub_set_of subs param = []" by (simp add: sub_set_of_def)
  then show ?thesis using assms(1)
    by (simp add: publish_map call_outcomes_def only_std_exceptions_def)
qed

theorem publish_no_subscription_witness:
  "is_map (p_map [(''other'', p_string ''v'')]) \<and>
   keys (p_map [(''other'', p_string ''v'')]) = [''other''] \<and> demo_subs ''other'' = None \<and>
   publish demo_heap demo_subs demo_ctx (p_map [(''other'', p_string ''v'')]) 0 =
     (Inr default_result,
      demo_ctx\<lparr>prev_published_params := prev_published_params demo_ctx @ [p_map [(''other'', p_string ''v'')]]\<rparr>,
      map data_pushed (keys (p_map [(''other'', p_string ''v'')])))"
proof -
  have h1: "is_map (p_map [(''other'', p_string ''v'')])" by simp
  have h2: "\<forall>k\<in>set (keys (p_map [(''other'', p_string ''v'')])). demo_subs k = None"
    by (simp add: demo_subs_def demo_defs)
  have k: "keys (p_map [(''other'', p_string ''v'')]) = [''other'']" by (simp add: keys_def)
  have n: "demo_subs ''other'' = None" by (simp add: demo_subs_def demo_defs)
  from publish_no_subscription [OF h1 h2, of demo_heap demo_ctx 0] h1 k n show ?thesis by blast
qed

section \<open>Properties of the WAF subscriber\<close>

lemma call_before_update:
  "waf_call (ip_block_instance aid table) now (client_ip_data ip) empty_event = Inr empty_event"
  by (simp add: waf_call_def ip_block_instance_def client_ip_data_def empty_event_def
      default_waf_timeout_us_def eval_condition_def)

lemma update_doc:
  "update st this (rules_data_doc ip expiration) =
     (Inr (next_free st),
      st\<lparr>objs := (objs st)
            (next_free st :=
               (objs st this)\<lparr>waf_rules_data :=
                 (''blocked_ips'', [p_map [(''value'', p_string ip), (''expiration'', expiration)]]) #
                 filter (\<lambda>(k, d). k \<noteq> ''blocked_ips'') (waf_rules_data (objs st this))\<rparr>),
         next_free := Suc (next_free st)\<rparr>)"
  by (simp add: update_def rules_data_doc_def)

lemma call_after_update:
  assumes "expiration_of expiration = Some e" and "now < e"
  shows "waf_call
     ((ip_block_instance aid table)\<lparr>waf_rules_data :=
         [(''blocked_ips'', [p_map [(''value'', p_string ip), (''expiration'', expiration)]])]\<rparr>)
     now (client_ip_data ip) empty_event =
     Inr \<lparr>ev_data =
            [\<lparr>frag_rule_id = ''blk-001-001'',
              frag_rule_matches =
                [\<lparr>rm_operator = ''ip_match'',
                  rm_parameters =
                    [\<lparr>mp_address = ''http.client_ip'', mp_key_path = [], mp_value = ip\<rparr>]\<rparr>]\<rparr>],
          ev_actions = [resolve_action table aid]\<rparr>"
  using assms
  by (simp add: waf_call_def ip_block_instance_def client_ip_data_def empty_event_def
      default_waf_timeout_us_def eval_condition_def no_obfuscation_def
      obfuscate_fragment_def obfuscate_match_def obfuscate_param_def is_sensitive_def)

lemma resolve_block:
  assumes "case map_of table aid of Some entry \<Rightarrow> entry_type entry = ''block_request''
           | None \<Rightarrow> aid = ''block''"
  shows "resolve_action table aid =
     \<lparr>act_type = block,
      act_parameters = block_defaults ++
        map_of (case map_of table aid of Some entry \<Rightarrow> entry_parameters entry | None \<Rightarrow> [])\<rparr>"
proof (cases "map_of table aid")
  case None
  with assms show ?thesis by (simp add: resolve_action_def make_action_def)
next
  case (Some entry)
  with assms show ?thesis by (simp add: resolve_action_def make_action_def)
qed

lemma parse_entry_shape:
  "\<not> entry_shape_ok p \<Longrightarrow> \<exists>key msg. parse_entry p = Inl (invalid_object key msg)"
proof (cases p)
  case (p_map es)
  assume "\<not> entry_shape_ok p"
  with p_map show ?thesis
    by (cases "map_of es ''id''"; cases "map_of es ''type''"; cases "map_of es ''data''")
       (auto split: parameter.splits elim: is_string.elims is_array.elims)
qed simp_all

lemma parse_entry_error:
  "parse_entry p = Inl e \<Longrightarrow> \<exists>key msg. e = invalid_object key msg"
  by (cases p) (auto split: option.splits parameter.splits)

lemma parse_entries_shape:
  "\<not> list_all entry_shape_ok ps \<Longrightarrow> \<exists>key msg. parse_entries ps = Inl (invalid_object key msg)"
proof (induction ps)
  case Nil
  then show ?case by simp
next
  case (Cons p ps)
  show ?case
  proof (cases "entry_shape_ok p")
    case True
    with Cons obtain key msg where "parse_entries ps = Inl (invalid_object key msg)" by auto
    then show ?thesis by (auto split: sum.splits dest: parse_entry_error)
  next
    case False
    from parse_entry_shape [OF this] show ?thesis by auto
  qed
qed

lemma parse_rules_data_shape:
  "\<not> shape_ok param \<Longrightarrow> \<exists>key msg. parse_rules_data param = Inl (invalid_object key msg)"
proof (cases param)
  case (p_map es)
  assume n: "\<not> shape_ok param"
  show ?thesis
  proof (cases "map_of es ''rules_data''")
    case None
    with p_map show ?thesis by simp
  next
    case (Some x)
    show ?thesis
    proof (cases x)
      case (p_array items)
      with n p_map Some have "\<not> list_all entry_shape_ok items" by simp
      from parse_entries_shape [OF this] p_map Some p_array show ?thesis by simp
    qed (use p_map Some in simp_all)
  qed
qed simp_all

lemma waf_call_data:
  assumes "waf_call inst now data ev = Inr ev'"
  shows "ev_data ev' =
     ev_data ev @ map (obfuscate_fragment (waf_obfuscation inst)) (matched_fragments inst now data)"
  using assms
  by (auto simp: waf_call_def matched_fragments_def Let_def split: if_splits)

lemma is_sensitive_iff:
  "is_sensitive obf mp \<longleftrightarrow>
     (\<exists>accepts. obf_key_regex obf = Some accepts \<and> (\<exists>key\<in>set (mp_key_path mp). accepts key)) \<or>
     (\<exists>accepts. obf_value_regex obf = Some accepts \<and> accepts (mp_value mp))"
  by (auto simp: is_sensitive_def list_ex_iff split: option.splits)

lemma param_at_obfuscated:
  assumes "i < length frags"
    and "j < length (frag_rule_matches (frags ! i))"
    and "k < length (rm_parameters (frag_rule_matches (frags ! i) ! j))"
  shows "param_at (pre @ map (obfuscate_fragment obf) frags) (length pre + i) j k =
     obfuscate_param obf (param_at frags i j k)"
  using assms
  by (simp add: param_at_def nth_append obfuscate_fragment_def obfuscate_match_def)

section \<open>The claims about the WAF subscriber\<close>

text \<open>
  Claim C7. A subscriber built from the ruleset with one \<open>ip_match\<close> rule on
  \<open>http.client_ip\<close> that refers to the rule data \<open>blocked_ips\<close> does not match an
  address before update: the call leaves the Event empty. After update with a rule-data
  document adding that address with an expiration in the future, the old instance is
  unchanged, and the same input matches on the new instance: the Event holds the
  fragment with the address and one action of type \<open>block\<close>, whose parameters are,
  key by key, those of the rule's action entry where it supplies one, and otherwise the
  defaults status_code=403, grpc_status_code=10, type=auto.
\<close>

theorem update_round_trip:
  assumes "expiration_of expiration = Some e" and "now < e"
    and "objs st this = ip_block_instance aid table" and "this < next_free st"
    and "case map_of table aid of Some entry \<Rightarrow> entry_type entry = ''block_request''
         | None \<Rightarrow> aid = ''block''"
  shows "waf_call (objs st this) now (client_ip_data ip) empty_event = Inr empty_event \<and>
    (\<exists>st' a.
       update st this (rules_data_doc ip expiration) = (Inr (next_free st), st') \<and>
       objs st' this = objs st this \<and>
       waf_call (objs st' (next_free st)) now (client_ip_data ip) empty_event =
         Inr \<lparr>ev_data =
                [\<lparr>frag_rule_id = ''blk-001-001'',
                  frag_rule_matches =
                    [\<lparr>rm_operator = ''ip_match'',
                      rm_parameters =
                        [\<lparr>mp_address = ''http.client_ip'', mp_key_path = [], mp_value = ip\<rparr>]\<rparr>]\<rparr>],
              ev_actions = [a]\<rparr> \<and>
       act_type a = block \<and>
       (\<forall>key. act_parameters a key =
          (case map_of (case map_of table aid of Some entry \<Rightarrow> entry_parameters entry | None \<Rightarrow> []) key of
             Some v \<Rightarrow> Some v
           | None \<Rightarrow> [''status_code'' \<mapsto> ''403'', ''grpc_status_code'' \<mapsto> ''10'', ''type'' \<mapsto> ''auto''] key)))"
proof -
  let ?ps = "case map_of table aid of Some entry \<Rightarrow> entry_parameters entry | None \<Rightarrow> []"
  let ?a = "\<lparr>act_type = block, act_parameters = block_defaults ++ map_of ?ps\<rparr>"
  let ?st' = "snd (update st this (rules_data_doc ip expiration))"
  have before: "waf_call (objs st this) now (client_ip_data ip) empty_event = Inr empty_event"
    by (simp only: assms(3) call_before_update)
  have up: "update st this (rules_data_doc ip expiration) = (Inr (next_free st), ?st')"
    by (simp add: update_doc)
  have old: "objs ?st' this = objs st this"
    using assms(4) by (simp add: update_doc)
  have new: "objs ?st' (next_free st) =
      (ip_block_instance aid table)\<lparr>waf_rules_data :=
         [(''blocked_ips'', [p_map [(''value'', p_string ip), (''expiration'', expiration)]])]\<rparr>"
    by (simp add: update_doc assms(3)) (simp add: ip_block_instance_def)
  have after: "waf_call (objs ?st' (next_free st)) now (client_ip_data ip) empty_event =
         Inr \<lparr>ev_data =
                [\<lparr>frag_rule_id = ''blk-001-001'',
                  frag_rule_matches =
                    [\<lparr>rm_operator = ''ip_match'',
                      rm_parameters =
                        [\<lparr>mp_address = ''http.client_ip'', mp_key_path = [], mp_value = ip\<rparr>]\<rparr>]\<rparr>],
              ev_actions = [?a]\<rparr>"
    unfolding new call_after_update [OF assms(1,2)] resolve_block [OF assms(5)] ..
  have params: "act_parameters ?a key =
          (case map_of ?ps key of
             Some v \<Rightarrow> Some v
           | None \<Rightarrow> [''status_code'' \<mapsto> ''403'', ''grpc_status_code'' \<mapsto> ''10'', ''type'' \<mapsto> ''auto''] key)"
    for key
    by (simp add: map_add_def block_defaults_def split: option.splits)
  have ty: "act_type ?a = block" by simp
  from before up old after ty params show ?thesis by blast
qed

theorem update_round_trip_witness:
  "expiration_of (p_string ''9999999999'') = Some 9999999999 \<and> (1700000000::nat) < 9999999999 \<and>
   objs (demo_store (ip_block_instance ''custom'' custom_block_table)) 0 =
     ip_block_instance ''custom'' custom_block_table \<and>
   0 < next_free (demo_store (ip_block_instance ''custom'' custom_block_table)) \<and>
   (case map_of custom_block_table ''custom'' of
      Some entry \<Rightarrow> entry_type entry = ''block_request'' | None \<Rightarrow> ''custom'' = ''block'') \<and>
   waf_call (objs (demo_store (ip_block_instance ''custom'' custom_block_table)) 0) 1700000000
     (client_ip_data ''192.168.1.1'') empty_event = Inr empty_event \<and>
   (\<exists>st' a.
       update (demo_store (ip_block_instance ''custom'' custom_block_table)) 0
         (rules_data_doc ''192.168.1.1'' (p_string ''9999999999'')) = (Inr 1, st') \<and>
       waf_call (objs st' 1) 1700000000 (client_ip_data ''192.168.1.1'') empty_event =
         Inr \<lparr>ev_data =
                [\<lparr>frag_rule_id = ''blk-001-001'',
                  frag_rule_matches =
                    [\<lparr>rm_operator = ''ip_match'',
                      rm_parameters =
                        [\<lparr>mp_address = ''http.client_ip'', mp_key_path = [],
                          mp_value = ''192.168.1.1''\<rparr>]\<rparr>]\<rparr>],
              ev_actions = [a]\<rparr> \<and>
       act_type a = block \<and>
       act_parameters a ''status_code'' = Some ''123'' \<and>
       act_parameters a ''grpc_status_code'' = Some ''10'' \<and>
       act_parameters a ''type'' = Some ''auto'' \<and>
       act_parameters a ''custom_param'' = Some ''foo'')"
proof -
  let ?st = "demo_store (ip_block_instance ''custom'' custom_block_table)"
  have h1: "expiration_of (p_string ''9999999999'') = Some 9999999999"
    by (simp add: digit_of_def)
  have h2: "(1700000000::nat) < 9999999999" by simp
  have h3: "objs ?st 0 = ip_block_instance ''custom'' custom_block_table"
    by (simp add: demo_store_def)
  have h4: "0 < next_free ?st" by (simp add: demo_store_def)
  have h5: "case map_of custom_block_table ''custom'' of
      Some entry \<Rightarrow> entry_type entry = ''block_request'' | None \<Rightarrow> ''custom'' = ''block''"
    by (simp add: custom_block_table_def)
  have n: "next_free ?st = 1" by (simp add: demo_store_def)
  from update_round_trip [OF h1 h2 h3 h4 h5, of "''192.168.1.1''"]
  obtain st' a where r:
    "waf_call (objs ?st 0) 1700000000 (client_ip_data ''192.168.1.1'') empty_event = Inr empty_event"
    "update ?st 0 (rules_data_doc ''192.168.1.1'' (p_string ''9999999999'')) = (Inr (next_free ?st), st')"
    "waf_call (objs st' (next_free ?st)) 1700000000 (client_ip_data ''192.168.1.1'') empty_event =
         Inr \<lparr>ev_data =
                [\<lparr>frag_rule_id = ''blk-001-001'',
                  frag_rule_matches =
                    [\<lparr>rm_operator = ''ip_match'',
                      rm_parameters =
                        [\<lparr>mp_address = ''http.client_ip'', mp_key_path = [],
                          mp_value = ''192.168.1.1''\<rparr>]\<rparr>]\<rparr>],
              ev_actions = [a]\<rparr>"
    "act_type a = block"
    "\<And>key. act_parameters a key =
          (case map_of (case map_of custom_block_table ''custom'' of
                          Some entry \<Rightarrow> entry_parameters entry | None \<Rightarrow> []) key of
             Some v \<Rightarrow> Some v
           | None \<Rightarrow> [''status_code'' \<mapsto> ''403'', ''grpc_status_code'' \<mapsto> ''10'', ''type'' \<mapsto> ''auto''] key)"
    by blast
  have p: "act_parameters a ''status_code'' = Some ''123''"
    "act_parameters a ''grpc_status_code'' = Some ''10''"
    "act_parameters a ''type'' = Some ''auto''"
    "act_parameters a ''custom_param'' = Some ''foo''"
    by (simp_all add: r(5) custom_block_table_def)
  from r(1-4) p h1 h2 h3 h4 h5 show ?thesis unfolding n by blast
qed

text \<open>
  Claim C8. For every document whose shape is wrong (not a map, no \<open>rules_data\<close>
  key as in the empty object, \<open>rules_data\<close> not a sequence, or an entry that is not
  \<open>{id, type, data: [...]}\<close>), update fails with \<open>invalid_object\<close> and leaves the
  store of instances as it was: no new instance is produced and the original one is not
  changed, so it answers later calls as before.
\<close>

theorem update_invalid_shape:
  assumes "\<not> shape_ok param"
  shows "\<exists>key msg. update st this param = (Inl (invalid_object key msg), st)"
proof -
  from parse_rules_data_shape [OF assms] obtain key msg
    where "parse_rules_data param = Inl (invalid_object key msg)" by blast
  then show ?thesis by (simp add: update_def)
qed

theorem update_invalid_shape_witness:
  "\<not> shape_ok (p_map []) \<and>
   (\<exists>key msg. update (demo_store waf_rule_with_data) 0 (p_map []) =
      (Inl (invalid_object key msg), demo_store waf_rule_with_data)) \<and>
   waf_call (objs (snd (update (demo_store waf_rule_with_data) 0 (p_map []))) 0) 1700000000
     (client_ip_data ''192.168.1.1'') empty_event = Inr empty_event"
proof -
  have h: "\<not> shape_ok (p_map [])" by simp
  from update_invalid_shape [OF h, of "demo_store waf_rule_with_data" 0]
  obtain key msg where u: "update (demo_store waf_rule_with_data) 0 (p_map []) =
      (Inl (invalid_object key msg), demo_store waf_rule_with_data)" by blast
  have "waf_call (objs (snd (update (demo_store waf_rule_with_data) 0 (p_map []))) 0) 1700000000
     (client_ip_data ''192.168.1.1'') empty_event = Inr empty_event"
    unfolding u by (simp add: demo_store_def waf_rule_with_data_def call_before_update)
  with h u show ?thesis by blast
qed

text \<open>
  Claim C9. For every matched value one of whose originating keys is accepted by the
  key regex of the subscriber, or which is itself accepted by the value regex (either
  alone is enough), the value serialized into the Event at that place is the redaction
  placeholder, under the same address and key path. Publishing
  \<open>{"arg1": {"password": "string 1"}, "arg2": "string 3"}\<close> against the ruleset of the
  tests with the key regex \<open>password\<close> gives fragments whose parameter values are the
  placeholder.
\<close>

theorem obfuscation_redacts:
  assumes "waf_call inst now data ev = Inr ev'"
    and "i < length (matched_fragments inst now data)"
    and "j < length (frag_rule_matches (matched_fragments inst now data ! i))"
    and "k < length (rm_parameters (frag_rule_matches (matched_fragments inst now data ! i) ! j))"
    and "(\<exists>accepts. obf_key_regex (waf_obfuscation inst) = Some accepts \<and>
            (\<exists>key\<in>set (mp_key_path (param_at (matched_fragments inst now data) i j k)). accepts key)) \<or>
         (\<exists>accepts. obf_value_regex (waf_obfuscation inst) = Some accepts \<and>
            accepts (mp_value (param_at (matched_fragments inst now data) i j k)))"
  shows "length (ev_data ev') = length (ev_data ev) + length (matched_fragments inst now data) \<and>
     mp_value (param_at (ev_data ev') (length (ev_data ev) + i) j k) = redaction_placeholder \<and>
     mp_address (param_at (ev_data ev') (length (ev_data ev) + i) j k) =
       mp_address (param_at (matched_fragments inst now data) i j k) \<and>
     mp_key_path (param_at (ev_data ev') (length (ev_data ev) + i) j k) =
       mp_key_path (param_at (matched_fragments inst now data) i j k)"
proof -
  let ?raw = "matched_fragments inst now data"
  note d = waf_call_data [OF assms(1)]
  have s: "is_sensitive (waf_obfuscation inst) (param_at ?raw i j k)"
    using assms(5) by (simp only: is_sensitive_iff)
  have "param_at (ev_data ev') (length (ev_data ev) + i) j k =
      obfuscate_param (waf_obfuscation inst) (param_at ?raw i j k)"
    unfolding d using assms(2-4) by (rule param_at_obfuscated)
  with s d show ?thesis by (simp add: obfuscate_param_def)
qed

theorem obfuscation_redacts_witness:
  "waf_call (waf_rule password_obfuscation default_waf_timeout_us) 0 obfuscated_data empty_event =
     Inr \<lparr>ev_data =
            [\<lparr>frag_rule_id = ''1'',
              frag_rule_matches =
                [\<lparr>rm_operator = ''match_regex'',
                  rm_parameters =
                    [\<lparr>mp_address = ''arg1'', mp_key_path = [''password''],
                      mp_value = ''<Redacted>''\<rparr>]\<rparr>,
                 \<lparr>rm_operator = ''match_regex'',
                  rm_parameters =
                    [\<lparr>mp_address = ''arg2'', mp_key_path = [],
                      mp_value = ''<Redacted>''\<rparr>]\<rparr>]\<rparr>],
          ev_actions = []\<rparr> \<and>
   matched_fragments (waf_rule password_obfuscation default_waf_timeout_us) 0 obfuscated_data =
     [\<lparr>frag_rule_id = ''1'',
       frag_rule_matches =
         [\<lparr>rm_operator = ''match_regex'',
           rm_parameters =
             [\<lparr>mp_address = ''arg1'', mp_key_path = [''password''], mp_value = ''string 1''\<rparr>]\<rparr>,
          \<lparr>rm_operator = ''match_regex'',
           rm_parameters =
             [\<lparr>mp_address = ''arg2'', mp_key_path = [], mp_value = ''string 3''\<rparr>]\<rparr>]\<rparr>] \<and>
   obf_key_regex (waf_obfuscation (waf_rule password_obfuscation default_waf_timeout_us)) =
     Some (contains ''password'') \<and>
   contains ''password'' ''password'' \<and>
   (\<exists>ev'. waf_call (waf_rule password_obfuscation default_waf_timeout_us) 0 obfuscated_data
            empty_event = Inr ev' \<and>
      length (ev_data ev') = 1 \<and>
      mp_value (param_at (ev_data ev') 0 0 0) = redaction_placeholder \<and>
      mp_key_path (param_at (ev_data ev') 0 0 0) = [''password''])"
proof -
  let ?inst = "waf_rule password_obfuscation default_waf_timeout_us"
  let ?ev' = "\<lparr>ev_data =
            [\<lparr>frag_rule_id = ''1'',
              frag_rule_matches =
                [\<lparr>rm_operator = ''match_regex'',
                  rm_parameters =
                    [\<lparr>mp_address = ''arg1'', mp_key_path = [''password''],
                      mp_value = ''<Redacted>''\<rparr>]\<rparr>,
                 \<lparr>rm_operator = ''match_regex'',
                  rm_parameters =
                    [\<lparr>mp_address = ''arg2'', mp_key_path = [],
                      mp_value = ''<Redacted>''\<rparr>]\<rparr>]\<rparr>],
          ev_actions = []\<rparr>"
  have m: "matched_fragments ?inst 0 obfuscated_data =
     [\<lparr>frag_rule_id = ''1'',
       frag_rule_matches =
         [\<lparr>rm_operator = ''match_regex'',
           rm_parameters =
             [\<lparr>mp_address = ''arg1'', mp_key_path = [''password''], mp_value = ''string 1''\<rparr>]\<rparr>,
          \<lparr>rm_operator = ''match_regex'',
           rm_parameters =
             [\<lparr>mp_address = ''arg2'', mp_key_path = [], mp_value = ''string 3''\<rparr>]\<rparr>]\<rparr>]"
    by (simp add: matched_fragments_def waf_rule_def obfuscated_data_def eval_condition_def)
  have c: "waf_call ?inst 0 obfuscated_data empty_event = Inr ?ev'"
    by (simp add: waf_call_def waf_rule_def obfuscated_data_def eval_condition_def
        password_obfuscation_def default_waf_timeout_us_def empty_event_def
        obfuscate_fragment_def obfuscate_match_def obfuscate_param_def is_sensitive_def
        redaction_placeholder_def)
  have k: "obf_key_regex (waf_obfuscation ?inst) = Some (contains ''password'')"
    by (simp add: waf_rule_def password_obfuscation_def)
  have a: "contains ''password'' ''password''" by simp
  have h2: "0 < length (matched_fragments ?inst 0 obfuscated_data)" by (simp add: m)
  have h3: "0 < length (frag_rule_matches (matched_fragments ?inst 0 obfuscated_data ! 0))"
    by (simp add: m)
  have h4: "0 < length (rm_parameters (frag_rule_matches (matched_fragments ?inst 0 obfuscated_data ! 0) ! 0))"
    by (simp add: m)
  have h5: "(\<exists>accepts. obf_key_regex (waf_obfuscation ?inst) = Some accepts \<and>
            (\<exists>key\<in>set (mp_key_path (param_at (matched_fragments ?inst 0 obfuscated_data) 0 0 0)). accepts key)) \<or>
         (\<exists>accepts. obf_value_regex (waf_obfuscation ?inst) = Some accepts \<and>
            accepts (mp_value (param_at (matched_fragments ?inst 0 obfuscated_data) 0 0 0)))"
    using k a by (simp add: m param_at_def)
  from obfuscation_redacts [OF c h2 h3 h4 h5]
  have "length (ev_data ?ev') = 1 \<and>
      mp_value (param_at (ev_data ?ev') 0 0 0) = redaction_placeholder \<and>
      mp_key_path (param_at (ev_data ?ev') 0 0 0) = [''password'']"
    by (simp add: m empty_event_def param_at_def)
  with c m k a show ?thesis by blast
qed

end
